theory Spec2Isabelle
  imports
    Complex_Main
    "HOL-Library.AList"
    "HOL-Library.Char_ord"
    "HOL-Library.List_Lexorder"
    "HOL-Library.Multiset"
    "HOL-Library.Option_ord"
    "HOL-Library.Product_Lexorder"
begin

section \<open>Data model\<close>

text \<open>
  A calendar date is its proleptic ordinal (what \<^verbatim>\<open>date.toordinal()\<close> returns), so that
  \<^verbatim>\<open>(d1 - d2).days\<close> is integer subtraction and \<^verbatim>\<open>d + timedelta(days=n)\<close> is addition.
  The database stores dates as ISO text \<^verbatim>\<open>YYYY-MM-DD\<close>; on such text the string order of
  SQLite is the calendar order, and \<^verbatim>\<open>isoformat\<close>/\<^verbatim>\<open>fromisoformat\<close> are inverse to each
  other, so a stored date is modelled by the ordinal itself. The dates are the ordinals
  from 1 (0001-01-01) to 3652059 (9999-12-31).
\<close>

type_synonym date = int

record datetime =
  dt_date :: date
  dt_micros :: nat

text \<open>The exceptions the modelled operations can raise.\<close>

datatype error =
    KeyError string
  | ValueError string
  | ZeroDivisionError
  | IntegrityError string
  | OverflowError

text \<open>
  Date arithmetic. \<^verbatim>\<open>timedelta(days=n)\<close> raises \<^verbatim>\<open>OverflowError\<close> when the magnitude of
  \<open>n\<close> exceeds 999999999, and \<^verbatim>\<open>d + timedelta(days=n)\<close> raises it when the result is not a
  date. The left operand \<open>d\<close> is a date, so the result can only fall below the range for a
  negative \<open>n\<close> and only rise above it for a positive \<open>n\<close>, and the test is written that
  way. \<^verbatim>\<open>d - timedelta(days=n)\<close> adds the negated difference.
\<close>

definition max_ordinal :: int where
  "max_ordinal = 3652059"

definition is_date :: "int \<Rightarrow> bool" where
  "is_date d \<longleftrightarrow> 1 \<le> d \<and> d \<le> max_ordinal"

definition date_add :: "date \<Rightarrow> int \<Rightarrow> error + date" where
  "date_add d n =
     (if 999999999 < \<bar>n\<bar> then Inl OverflowError
      else if (n < 0 \<and> d + n < 1) \<or> (0 < n \<and> max_ordinal < d + n) then Inl OverflowError
      else Inr (d + n))"

definition date_sub :: "date \<Rightarrow> int \<Rightarrow> error + date" where
  "date_sub d n = date_add d (- n)"

text \<open>The dataclass \<^verbatim>\<open>Project\<close>.\<close>

record project =
  name :: string
  owner :: string
  deadline :: date
  p_id :: string
  p_status :: string
  description :: string
  p_created_at :: datetime

text \<open>
  The dataclass \<^verbatim>\<open>Task\<close>. A row of the table \<^verbatim>\<open>tasks\<close> holds every field but
  \<^verbatim>\<open>dependencies\<close>, which live in the table \<^verbatim>\<open>dependencies\<close>; the record
  \<open>task_row\<close> is such a row and \<open>task\<close> extends it by the dependency list.
\<close>

record task_row =
  project_id :: string
  title :: string
  assignee :: string
  priority :: int
  t_id :: string
  t_status :: string
  due_date :: "date option"
  story_points :: int
  completed_at :: "datetime option"
  t_created_at :: datetime

record task = task_row +
  dependencies :: "string list"

definition is_done :: "'a task_row_scheme \<Rightarrow> bool" where
  "is_done t = (t_status t = ''done'')"

section \<open>The entity store\<close>

text \<open>
  The SQLite connection is modelled by the contents of its three tables, each a list of
  rows in insertion (rowid) order. \<^verbatim>\<open>PRIMARY KEY\<close> constraints are modelled (an
  \<^verbatim>\<open>INSERT\<close> of a present key raises \<^verbatim>\<open>sqlite3.IntegrityError\<close>, an
  \<^verbatim>\<open>INSERT OR IGNORE\<close> of a present key does nothing); foreign keys are not enforced
  by SQLite unless switched on, which the source never does.
\<close>

record store =
  tbl_projects :: "project list"
  tbl_tasks :: "task_row list"
  tbl_dependencies :: "(string \<times> string) list"

definition empty_store :: store where
  "empty_store = \<lparr>tbl_projects = [], tbl_tasks = [], tbl_dependencies = []\<rparr>"

text \<open>
  \<^verbatim>\<open>create_project\<close>: the fresh identifier (\<^verbatim>\<open>uuid.uuid4()\<close>) and the creation time
  (\<^verbatim>\<open>datetime.utcnow()\<close>) are inputs of the model.
\<close>

definition create_project ::
  "store \<Rightarrow> string \<Rightarrow> datetime \<Rightarrow> string \<Rightarrow> string \<Rightarrow> date \<Rightarrow> string \<Rightarrow> error + (store \<times> project)" where
  "create_project s new_id now nm ow dl descr =
     (let p = \<lparr>name = nm, owner = ow, deadline = dl, p_id = new_id, p_status = ''active'',
                description = descr, p_created_at = now\<rparr>
      in if new_id \<in> set (map p_id (tbl_projects s))
         then Inl (IntegrityError ''projects.id'')
         else Inr (s\<lparr>tbl_projects := tbl_projects s @ [p]\<rparr>, p))"

definition get_project :: "store \<Rightarrow> string \<Rightarrow> project option" where
  "get_project s pid = find (\<lambda>p. p_id p = pid) (tbl_projects s)"

text \<open>
  \<^verbatim>\<open>list_projects\<close>: the test \<^verbatim>\<open>if status:\<close> is false for \<^verbatim>\<open>None\<close> and for the empty
  string. \<^verbatim>\<open>ORDER BY deadline\<close> is modelled by a stable sort of the rows in insertion
  order (SQL leaves the order of equal keys open).
\<close>

definition list_projects :: "store \<Rightarrow> string option \<Rightarrow> project list" where
  "list_projects s status =
     (case status of
        None \<Rightarrow> sort_key deadline (tbl_projects s)
      | Some st \<Rightarrow>
          if st = [] then sort_key deadline (tbl_projects s)
          else sort_key deadline (filter (\<lambda>p. p_status p = st) (tbl_projects s)))"

definition update_project_status :: "store \<Rightarrow> string \<Rightarrow> string \<Rightarrow> store \<times> bool" where
  "update_project_status s pid status =
     (s\<lparr>tbl_projects := map (\<lambda>p. if p_id p = pid then p\<lparr>p_status := status\<rparr> else p) (tbl_projects s)\<rparr>,
      0 < length (filter (\<lambda>p. p_id p = pid) (tbl_projects s)))"

text \<open>\<^verbatim>\<open>INSERT OR IGNORE INTO dependencies VALUES (task_id, depends_on)\<close>.\<close>

definition insert_dependency :: "string \<Rightarrow> string \<Rightarrow> (string \<times> string) list \<Rightarrow> (string \<times> string) list" where
  "insert_dependency tid dep ds = (if (tid, dep) \<in> set ds then ds else ds @ [(tid, dep)])"

definition add_dependency :: "store \<Rightarrow> string \<Rightarrow> string \<Rightarrow> store" where
  "add_dependency s tid dep = s\<lparr>tbl_dependencies := insert_dependency tid dep (tbl_dependencies s)\<rparr>"

text \<open>
  An \<^verbatim>\<open>INTEGER\<close> column holds a signed 64-bit integer: binding a Python \<^verbatim>\<open>int\<close> outside
  that range raises \<^verbatim>\<open>OverflowError\<close> before the statement runs.
\<close>

definition sqlite_integer :: "int \<Rightarrow> bool" where
  "sqlite_integer i \<longleftrightarrow> - (2 ^ 63) \<le> i \<and> i < 2 ^ 63"

text \<open>
  \<^verbatim>\<open>add_task\<close> inserts the row with the status and the completion time the caller put
  into the \<^verbatim>\<open>Task\<close>, then one edge for each listed dependency.
\<close>

definition add_task :: "store \<Rightarrow> task \<Rightarrow> error + (store \<times> task)" where
  "add_task s task =
     (if sqlite_integer (priority task) \<and> sqlite_integer (story_points task)
      then
        if t_id task \<in> set (map t_id (tbl_tasks s))
        then Inl (IntegrityError ''tasks.id'')
        else Inr (s\<lparr>tbl_tasks := tbl_tasks s @ [task_row.truncate task],
                     tbl_dependencies :=
                       fold (\<lambda>dep ds. insert_dependency (t_id task) dep ds) (dependencies task)
                         (tbl_dependencies s)\<rparr>,
                  task)
      else Inl OverflowError)"

text \<open>
  \<^verbatim>\<open>SELECT depends_on FROM dependencies WHERE task_id=?\<close>. SQL leaves the order of the rows
  open; SQLite answers the query from the index of the primary key
  \<^verbatim>\<open>(task_id, depends_on)\<close>, so the rows come sorted by \<^verbatim>\<open>depends_on\<close> in the order of their
  bytes, which is the lexicographic order on strings.
\<close>

definition select_depends_on :: "store \<Rightarrow> string \<Rightarrow> string list" where
  "select_depends_on s tid = sort (map snd (filter (\<lambda>e. fst e = tid) (tbl_dependencies s)))"

definition row_to_task :: "task_row \<Rightarrow> string list \<Rightarrow> task" where
  "row_to_task row deps = task_row.extend row (task.fields deps)"

definition get_task :: "store \<Rightarrow> string \<Rightarrow> task option" where
  "get_task s tid =
     (case find (\<lambda>r. t_id r = tid) (tbl_tasks s) of
        None \<Rightarrow> None
      | Some row \<Rightarrow> Some (row_to_task row (select_depends_on s tid)))"

text \<open>
  \<^verbatim>\<open>get_project_tasks\<close>: \<^verbatim>\<open>ORDER BY priority, due_date\<close>. SQLite sorts ascending and
  treats \<^verbatim>\<open>NULL\<close> as smaller than every other value; the key below is ordered
  lexicographically, and the order on \<open>date option\<close> puts \<open>None\<close> below every
  \<open>Some d\<close>. Rows with equal keys keep their insertion order (SQL leaves it open).
\<close>

definition order_key :: "'a task_row_scheme \<Rightarrow> int \<times> date option" where
  "order_key r = (priority r, due_date r)"

definition get_project_tasks :: "store \<Rightarrow> string \<Rightarrow> task list" where
  "get_project_tasks s pid =
     map (\<lambda>row. row_to_task row (select_depends_on s (t_id row)))
       (sort_key order_key (filter (\<lambda>r. project_id r = pid) (tbl_tasks s)))"

text \<open>
  \<^verbatim>\<open>update_task_status\<close>: the current time (\<^verbatim>\<open>datetime.utcnow()\<close>) is an input of the
  model. The result is the new store and \<^verbatim>\<open>cur.rowcount > 0\<close>.
\<close>

definition update_task_status :: "store \<Rightarrow> datetime \<Rightarrow> string \<Rightarrow> string \<Rightarrow> store \<times> bool" where
  "update_task_status s now tid status =
     (let completed = (if status = ''done'' then Some now else None)
      in (s\<lparr>tbl_tasks :=
               map (\<lambda>r. if t_id r = tid then r\<lparr>t_status := status, completed_at := completed\<rparr> else r)
                 (tbl_tasks s)\<rparr>,
          0 < length (filter (\<lambda>r. t_id r = tid) (tbl_tasks s))))"

text \<open>Sequences of the two task operations of the store, run from left to right. An
  \<^verbatim>\<open>add_task\<close> that raises leaves the store as it was.\<close>

datatype store_op =
    AddTask task
  | UpdateTaskStatus datetime string string

fun apply_op :: "store \<Rightarrow> store_op \<Rightarrow> store" where
  "apply_op s (AddTask t) = (case add_task s t of Inl e \<Rightarrow> s | Inr (s', t') \<Rightarrow> s')"
| "apply_op s (UpdateTaskStatus now tid status) = fst (update_task_status s now tid status)"

definition apply_ops :: "store \<Rightarrow> store_op list \<Rightarrow> store" where
  "apply_ops s ops = foldl apply_op s ops"

text \<open>The invariant of the data model: a completion time is there exactly for done tasks.\<close>

definition completion_consistent :: "'a task_row_scheme \<Rightarrow> bool" where
  "completion_consistent t = (completed_at t \<noteq> None \<longleftrightarrow> t_status t = ''done'')"

definition store_consistent :: "store \<Rightarrow> bool" where
  "store_consistent s = list_all completion_consistent (tbl_tasks s)"

fun op_consistent :: "store_op \<Rightarrow> bool" where
  "op_consistent (AddTask t) = completion_consistent t"
| "op_consistent (UpdateTaskStatus now tid status) = True"

section \<open>Example data\<close>

definition ex_time :: datetime where
  "ex_time = \<lparr>dt_date = 739000, dt_micros = 0\<rparr>"

definition ex_done_task :: task where
  "ex_done_task =
     \<lparr>project_id = ''p'', title = ''T'', assignee = ''a'', priority = 1, t_id = ''t'',
      t_status = ''done'', due_date = None, story_points = 1, completed_at = None,
      t_created_at = ex_time, dependencies = []\<rparr>"

definition ex_todo_task :: task where
  "ex_todo_task = ex_done_task\<lparr>t_status := ''todo''\<rparr>"

definition ex_due_store :: store where
  "ex_due_store = apply_ops empty_store
     [AddTask (ex_todo_task\<lparr>t_id := ''t1'', due_date := Some 739010\<rparr>),
      AddTask (ex_todo_task\<lparr>t_id := ''t2''\<rparr>)]"

section \<open>Dictionaries\<close>

text \<open>
  A Python \<^verbatim>\<open>dict\<close> keeps its keys in insertion order, and
  \<^verbatim>\<open>get_critical_path\<close> iterates over one (\<^verbatim>\<open>in_deg.items()\<close>), so a dictionary is an
  association list: a lookup takes the first pair with the key, an assignment replaces
  the value of a present key in place and appends an absent key at the end. Reading a
  missing key raises \<^verbatim>\<open>KeyError\<close>.
\<close>

type_synonym 'v dict = "(string \<times> 'v) list"

definition getitem :: "'v dict \<Rightarrow> string \<Rightarrow> error + 'v" where
  "getitem d k = (case map_of d k of None \<Rightarrow> Inl (KeyError k) | Some v \<Rightarrow> Inr v)"

definition setitem :: "'v dict \<Rightarrow> string \<Rightarrow> 'v \<Rightarrow> 'v dict" where
  "setitem d k v = AList.update k v d"

definition contains :: "'v dict \<Rightarrow> string \<Rightarrow> bool" where
  "contains d k = (k \<in> fst ` set d)"

text \<open>
  Reading \<^verbatim>\<open>children[k]\<close> from the \<^verbatim>\<open>defaultdict(list)\<close>: a missing key reads as the
  empty list (the entry that the read creates is never observed).
\<close>

definition getitem_default :: "'v list dict \<Rightarrow> string \<Rightarrow> 'v list" where
  "getitem_default d k = (case map_of d k of None \<Rightarrow> [] | Some v \<Rightarrow> v)"

text \<open>The comprehension \<^verbatim>\<open>{t.id: f(t) for t in tasks}\<close>.\<close>

definition dict_comp :: "(task \<Rightarrow> 'v) \<Rightarrow> task list \<Rightarrow> 'v dict" where
  "dict_comp f tasks = fold (\<lambda>t d. setitem d (t_id t) (f t)) tasks []"

text \<open>A \<^verbatim>\<open>for\<close> loop whose body may raise, and a comprehension whose element may raise.\<close>

fun fold_err :: "('a \<Rightarrow> 's \<Rightarrow> error + 's) \<Rightarrow> 'a list \<Rightarrow> 's \<Rightarrow> error + 's" where
  "fold_err f [] s = Inr s"
| "fold_err f (x # xs) s = (case f x s of Inl e \<Rightarrow> Inl e | Inr s' \<Rightarrow> fold_err f xs s')"

fun map_err :: "('a \<Rightarrow> error + 'b) \<Rightarrow> 'a list \<Rightarrow> error + 'b list" where
  "map_err f [] = Inr []"
| "map_err f (x # xs) =
     (case f x of
        Inl e \<Rightarrow> Inl e
      | Inr y \<Rightarrow> (case map_err f xs of Inl e \<Rightarrow> Inl e | Inr ys \<Rightarrow> Inr (y # ys)))"

section \<open>The critical-path engine\<close>

text \<open>
  Building the graph (source lines 256 to 262): for every task and every dependency of
  it that is the id of an input task, the in-degree of the task goes up by one and the
  task is appended to the children of the dependency.
\<close>

definition add_edge ::
  "task \<Rightarrow> string \<Rightarrow> int dict \<times> string list dict \<Rightarrow> error + (int dict \<times> string list dict)" where
  "add_edge task dep g =
     (case getitem (fst g) (t_id task) of
        Inl e \<Rightarrow> Inl e
      | Inr n \<Rightarrow>
          Inr (setitem (fst g) (t_id task) (n + 1),
               setitem (snd g) dep (getitem_default (snd g) dep @ [t_id task])))"

definition build_graph ::
  "task dict \<Rightarrow> task list \<Rightarrow> error + (int dict \<times> string list dict)" where
  "build_graph by_id tasks =
     fold_err
       (\<lambda>task. fold_err (\<lambda>dep g. if contains by_id dep then add_edge task dep g else Inr g)
          (dependencies task))
       tasks (dict_comp (\<lambda>t. 0) tasks, [])"

text \<open>The variables of the loop of Kahn's algorithm (source lines 265 to 281).\<close>

record kahn_state =
  queue :: "string list"
  topo_order :: "string list"
  earliest :: "int dict"
  pred :: "string option dict"
  in_deg :: "int dict"

text \<open>The body of \<^verbatim>\<open>for child_id in children[tid]\<close>.\<close>

definition relax :: "string \<Rightarrow> int \<Rightarrow> string \<Rightarrow> kahn_state \<Rightarrow> error + kahn_state" where
  "relax tid finish child_id st =
     (case getitem (earliest st) child_id of
        Inl e \<Rightarrow> Inl e
      | Inr ec \<Rightarrow>
          (let st1 = (if finish > ec
                      then st\<lparr>earliest := setitem (earliest st) child_id finish,
                              pred := setitem (pred st) child_id (Some tid)\<rparr>
                      else st)
           in case getitem (in_deg st1) child_id of
                Inl e \<Rightarrow> Inl e
              | Inr n \<Rightarrow>
                  (let st2 = st1\<lparr>in_deg := setitem (in_deg st1) child_id (n - 1)\<rparr>
                   in Inr (if n - 1 = 0 then st2\<lparr>queue := queue st2 @ [child_id]\<rparr> else st2))))"

text \<open>The body of \<^verbatim>\<open>while queue\<close> after \<^verbatim>\<open>tid\<close> has been popped and appended to
  \<^verbatim>\<open>topo_order\<close>.\<close>

definition process ::
  "task dict \<Rightarrow> string list dict \<Rightarrow> string \<Rightarrow> kahn_state \<Rightarrow> error + kahn_state" where
  "process by_id children tid st =
     (case getitem by_id tid of
        Inl e \<Rightarrow> Inl e
      | Inr task \<Rightarrow>
          (case getitem (earliest st) tid of
             Inl e \<Rightarrow> Inl e
           | Inr et \<Rightarrow>
               fold_err (relax tid (et + story_points task)) (getitem_default children tid) st))"

text \<open>The measure that shows the loop terminates from every state: the length of the
  queue plus the number of keys whose in-degree is still at least one (a key enters the
  queue only when its in-degree drops from one to zero).\<close>

definition pending :: "kahn_state \<Rightarrow> nat" where
  "pending st = length (queue st) + card {k. \<exists>n. map_of (in_deg st) k = Some n \<and> 1 \<le> n}"

text \<open>The loop \<^verbatim>\<open>while queue\<close>.\<close>

function kahn_loop :: "task dict \<Rightarrow> string list dict \<Rightarrow> kahn_state \<Rightarrow> error + kahn_state" where
  "kahn_loop by_id children st =
     (case queue st of
        [] \<Rightarrow> Inr st
      | tid # rest \<Rightarrow>
          (case process by_id children tid
                  (st\<lparr>queue := rest, topo_order := topo_order st @ [tid]\<rparr>) of
             Inl e \<Rightarrow> Inl e
           | Inr st' \<Rightarrow> kahn_loop by_id children st'))"
  by pat_completeness auto
termination
proof (relation "measure (\<lambda>(by_id, children, st). pending st)")
  show "wf (measure (\<lambda>(by_id :: task dict, children :: string list dict, st). pending st))"
    by simp
next
  fix by_id :: "task dict" and children :: "string list dict"
    and st st' :: kahn_state and tid rest
  assume q: "queue st = tid # rest"
    and p: "process by_id children tid (st\<lparr>queue := rest, topo_order := topo_order st @ [tid]\<rparr>)
              = Inr st'"
  have relax_pending: "pending b \<le> pending a" if r: "relax t f c a = Inr b" for t f c a b
  proof -
    from r obtain ec where ec: "getitem (earliest a) c = Inr ec"
      by (auto simp: relax_def split: sum.splits)
    define a1 where "a1 = (if f > ec then a\<lparr>earliest := setitem (earliest a) c f,
                                pred := setitem (pred a) c (Some t)\<rparr> else a)"
    have a1: "in_deg a1 = in_deg a" "queue a1 = queue a"
      by (simp_all add: a1_def)
    from r ec obtain n where n: "getitem (in_deg a) c = Inr n"
      and b: "b = (let st2 = a1\<lparr>in_deg := setitem (in_deg a1) c (n - 1)\<rparr>
                   in if n - 1 = 0 then st2\<lparr>queue := queue st2 @ [c]\<rparr> else st2)"
      by (auto simp: relax_def a1_def Let_def split: sum.splits if_splits)
    from n have mn: "map_of (in_deg a) c = Some n"
      by (auto simp: getitem_def split: option.splits)
    let ?S = "{k. \<exists>m. map_of (in_deg a) k = Some m \<and> 1 \<le> m}"
    let ?S' = "{k. \<exists>m. map_of (in_deg b) k = Some m \<and> 1 \<le> m}"
    have fin: "finite ?S"
      by (rule finite_subset [OF _ finite_dom_map_of [of "in_deg a"]]) auto
    have mb: "map_of (in_deg b) = (map_of (in_deg a))(c \<mapsto> n - 1)"
      by (simp add: b Let_def a1 setitem_def update_conv')
    show ?thesis
    proof (cases "n = 1")
      case True
      then have "?S' = ?S - {c}" using mn by (auto simp: mb)
      moreover have "c \<in> ?S" using mn True by simp
      ultimately have "card ?S' = card ?S - 1" "0 < card ?S"
        using fin by (auto simp: card_gt_0_iff)
      moreover have "length (queue b) = length (queue a) + 1"
        using True by (simp add: b Let_def a1)
      ultimately show ?thesis by (simp add: pending_def)
    next
      case False
      then have "?S' = ?S" using mn by (auto simp: mb)
      moreover have "queue b = queue a" using False by (simp add: b Let_def a1)
      ultimately show ?thesis by (simp add: pending_def)
    qed
  qed
  have fold_relax_pending: "pending b \<le> pending a"
    if "fold_err (relax t f) cs a = Inr b" for t f cs a b
    using that
  proof (induction cs arbitrary: a)
    case Nil
    then show ?case by simp
  next
    case (Cons c cs)
    then obtain a' where "relax t f c a = Inr a'" "fold_err (relax t f) cs a' = Inr b"
      by (auto split: sum.splits)
    then show ?case using Cons.IH relax_pending by fastforce
  qed
  from p have "pending st' \<le> pending (st\<lparr>queue := rest, topo_order := topo_order st @ [tid]\<rparr>)"
    by (auto simp: process_def split: sum.splits dest: fold_relax_pending)
  also have "\<dots> < pending st"
    using q by (simp add: pending_def)
  finally show "((by_id, children, st'), (by_id, children, st))
      \<in> measure (\<lambda>(by_id, children, st). pending st)"
    by simp
qed

declare kahn_loop.simps [simp del]

text \<open>
  The key of \<^verbatim>\<open>max(topo_order, key=...)\<close> and \<^verbatim>\<open>max\<close> itself, which returns the
  first element whose key is maximal and raises \<^verbatim>\<open>ValueError\<close> on an empty sequence. The
  key function is pure, so the keys are computed first.
\<close>

definition finish_key :: "task dict \<Rightarrow> int dict \<Rightarrow> string \<Rightarrow> error + int" where
  "finish_key by_id earl tid =
     (case getitem earl tid of
        Inl e \<Rightarrow> Inl e
      | Inr et \<Rightarrow>
          (case getitem by_id tid of Inl e \<Rightarrow> Inl e | Inr task \<Rightarrow> Inr (et + story_points task)))"

fun max_key :: "string \<times> int \<Rightarrow> (string \<times> int) list \<Rightarrow> string \<times> int" where
  "max_key best [] = best"
| "max_key best (x # xs) = max_key (if snd x > snd best then x else best) xs"

definition py_max :: "(string \<times> int) list \<Rightarrow> error + string" where
  "py_max kvs =
     (case kvs of
        [] \<Rightarrow> Inl (ValueError ''max() arg is an empty sequence'')
      | kv # rest \<Rightarrow> Inr (fst (max_key kv rest)))"

text \<open>The loop \<^verbatim>\<open>while cur is not None\<close>, which follows the predecessors. Nothing in
  its text bounds it, so it is a partial function: \<open>None\<close> stands for a run that does not
  return.\<close>

partial_function (option) trace_back ::
  "string option dict \<Rightarrow> string option \<Rightarrow> string list \<Rightarrow> (error + string list) option" where
  "trace_back prd cur path =
     (case cur of
        None \<Rightarrow> Some (Inr path)
      | Some c \<Rightarrow>
          (case getitem prd c of
             Inl e \<Rightarrow> Some (Inl e)
           | Inr p \<Rightarrow> trace_back prd p (path @ [c])))"

declare trace_back.simps [code]

definition initial_state :: "task list \<Rightarrow> int dict \<Rightarrow> kahn_state" where
  "initial_state tasks in_deg1 =
     \<lparr>queue = map fst (filter (\<lambda>(tid, deg). deg = 0) in_deg1),
      topo_order = [],
      earliest = dict_comp (\<lambda>t. 0) tasks,
      pred = dict_comp (\<lambda>t. None) tasks,
      in_deg = in_deg1\<rparr>"

text \<open>Source lines 287 to 295: the end of the path, the walk back, the reversal and the
  lookup of the task records.\<close>

definition select_path :: "task dict \<Rightarrow> kahn_state \<Rightarrow> (error + task list) option" where
  "select_path by_id st =
     (case map_err (finish_key by_id (earliest st)) (topo_order st) of
        Inl e \<Rightarrow> Some (Inl e)
      | Inr keys \<Rightarrow>
          (case py_max (zip (topo_order st) keys) of
             Inl e \<Rightarrow> Some (Inl e)
           | Inr end_id \<Rightarrow>
               (case trace_back (pred st) (Some end_id) [] of
                  None \<Rightarrow> None
                | Some (Inl e) \<Rightarrow> Some (Inl e)
                | Some (Inr path) \<Rightarrow> Some (map_err (getitem by_id) (rev path)))))"

text \<open>
  \<^verbatim>\<open>get_critical_path\<close> on the task list that \<^verbatim>\<open>get_project_tasks\<close> returned. The
  fallback \<^verbatim>\<open>sorted(tasks, key=lambda t: t.priority)\<close> is a stable sort.
\<close>

definition critical_path :: "task list \<Rightarrow> (error + task list) option" where
  "critical_path tasks =
     (if tasks = [] then Some (Inr [])
      else
        (let by_id = dict_comp (\<lambda>t. t) tasks
         in case build_graph by_id tasks of
              Inl e \<Rightarrow> Some (Inl e)
            | Inr g \<Rightarrow>
                (case kahn_loop by_id (snd g) (initial_state tasks (fst g)) of
                   Inl e \<Rightarrow> Some (Inl e)
                 | Inr st \<Rightarrow>
                     if length (topo_order st) \<noteq> length tasks
                     then Some (Inr (sort_key priority tasks))
                     else select_path by_id st)))"

definition get_critical_path :: "store \<Rightarrow> string \<Rightarrow> (error + task list) option" where
  "get_critical_path s pid = critical_path (get_project_tasks s pid)"

text \<open>
  The dependency graph the claims speak of: an edge leads from a prerequisite to the task
  that lists it, and only prerequisites that are ids of input tasks count. The list
  \<open>edge_list\<close> holds the edges in the order in which the source meets them.
\<close>

definition dep_edges :: "task list \<Rightarrow> (string \<times> string) set" where
  "dep_edges tasks =
     {(d, t_id t) | d t. t \<in> set tasks \<and> d \<in> set (dependencies t) \<and> d \<in> t_id ` set tasks}"

definition edge_list :: "task list \<Rightarrow> (string \<times> string) list" where
  "edge_list tasks =
     concat (map (\<lambda>t. map (\<lambda>d. (d, t_id t))
                         (filter (\<lambda>d. d \<in> t_id ` set tasks) (dependencies t))) tasks)"

section \<open>Floating-point numbers\<close>

text \<open>
  A Python \<^verbatim>\<open>float\<close> is an IEEE 754 binary64 number. A finite one is modelled by the
  real number it denotes, and every operation by the exact result rounded to the nearest
  number with a 53-bit significand, ties going to the even significand (\<open>fl\<close>). The
  exponent range is not modelled (no overflow to infinity, no subnormal numbers), nor is
  the sign of zero: the model is exact for results whose magnitude is zero or lies
  between 2 to the power -1022 and 2 to the power 1024, which holds for the values computed
  here from sums of 64-bit story points and from numbers of days.
\<close>

definition round_half_even :: "real \<Rightarrow> int" where
  "round_half_even x =
     (let f = \<lfloor>x\<rfloor>; d = x - of_int f
      in if d < 1 / 2 then f else if 1 / 2 < d then f + 1 else if even f then f else f + 1)"

text \<open>
  The binade of a nonzero number \<open>x\<close>: the integer \<open>e\<close> such that \<open>|x|\<close> is at least 2 to the
  power \<open>e\<close> and less than 2 to the power \<open>e + 1\<close>, found by stepping up from 0 when
  \<open>|x|\<close> is at least 1 and down otherwise.
\<close>

function exp_up :: "real \<Rightarrow> nat \<Rightarrow> nat" where
  "exp_up x e = (if 2 ^ (e + 1) \<le> x then exp_up x (e + 1) else e)"
  by pat_completeness auto
termination
proof (relation "measure (\<lambda>(x, e). nat \<lfloor>x\<rfloor> - e)")
  show "wf (measure (\<lambda>(x :: real, e). nat \<lfloor>x\<rfloor> - e))" by simp
next
  fix x :: real and e :: nat
  assume a: "2 ^ (e + 1) \<le> x"
  have "e + 1 < 2 ^ (e + 1)" by (rule less_exp)
  then have "e + 2 \<le> 2 ^ (e + 1)" by simp
  then have "of_nat (e + 2) \<le> (of_nat (2 ^ (e + 1)) :: real)" by (simp only: of_nat_le_iff)
  then have "of_nat (e + 2) \<le> (2 :: real) ^ (e + 1)" by simp
  with a have "of_nat (e + 2) \<le> x" by simp
  then have "int (e + 2) \<le> \<lfloor>x\<rfloor>" by (simp add: le_floor_iff)
  then show "((x, e + 1), (x, e)) \<in> measure (\<lambda>(x, e). nat \<lfloor>x\<rfloor> - e)"
    by simp
qed

function exp_down :: "real \<Rightarrow> nat \<Rightarrow> nat" where
  "exp_down x e = (if 0 < x \<and> x * 2 ^ e < 1 then exp_down x (e + 1) else e)"
  by pat_completeness auto
termination
proof (relation "measure (\<lambda>(x, e). nat \<lceil>1 / x\<rceil> - e)")
  show "wf (measure (\<lambda>(x :: real, e). nat \<lceil>1 / x\<rceil> - e))" by simp
next
  fix x :: real and e :: nat
  assume a: "0 < x \<and> x * 2 ^ e < 1"
  then have "2 ^ e < 1 / x" by (simp add: field_simps)
  moreover have "e < 2 ^ e" by (rule less_exp)
  then have "of_nat e < (of_nat (2 ^ e) :: real)" by (simp only: of_nat_less_iff)
  then have "of_nat e < (2 :: real) ^ e" by simp
  ultimately have "of_nat e < 1 / x" by (rule less_trans [rotated])
  then have "(of_nat e :: real) < of_int \<lceil>1 / x\<rceil>"
    using le_of_int_ceiling [of "1 / x"] by (rule less_le_trans)
  then have "int e < \<lceil>1 / x\<rceil>"
    by (metis of_int_less_iff of_int_of_nat_eq)
  then show "((x, e + 1), (x, e)) \<in> measure (\<lambda>(x, e). nat \<lceil>1 / x\<rceil> - e)"
    by simp
qed

declare exp_up.simps [simp del] exp_down.simps [simp del]

definition binade :: "real \<Rightarrow> int" where
  "binade x = (if 1 \<le> \<bar>x\<bar> then int (exp_up \<bar>x\<bar> 0) else - int (exp_down \<bar>x\<bar> 0))"

definition pow2 :: "int \<Rightarrow> real" where
  "pow2 e = (if 0 \<le> e then 2 ^ nat e else 1 / 2 ^ nat (- e))"

definition fl :: "real \<Rightarrow> real" where
  "fl x = (if x = 0 then 0
           else let u = pow2 (binade x - 52) in of_int (round_half_even (x / u)) * u)"

text \<open>
  The operations of \<^verbatim>\<open>calculate_burndown\<close>: the conversion of an \<^verbatim>\<open>int\<close> operand, true
  division of two \<^verbatim>\<open>int\<close>s (correctly rounded, \<^verbatim>\<open>ZeroDivisionError\<close> for a zero divisor),
  \<^verbatim>\<open>float * int\<close>, \<^verbatim>\<open>int - float\<close>, and \<^verbatim>\<open>round(x, 2)\<close>, which rounds the exact value of
  \<open>x\<close> to two decimals, ties to even, and returns the nearest \<^verbatim>\<open>float\<close>.
\<close>

definition int_to_float :: "int \<Rightarrow> real" where
  "int_to_float i = fl (of_int i)"

definition truediv :: "int \<Rightarrow> int \<Rightarrow> error + real" where
  "truediv a b = (if b = 0 then Inl ZeroDivisionError else Inr (fl (of_int a / of_int b)))"

definition float_mul_int :: "real \<Rightarrow> int \<Rightarrow> real" where
  "float_mul_int x i = fl (x * int_to_float i)"

definition int_sub_float :: "int \<Rightarrow> real \<Rightarrow> real" where
  "int_sub_float a y = fl (int_to_float a - y)"

definition round2 :: "real \<Rightarrow> real" where
  "round2 x = fl (of_int (round_half_even (x * 100)) / 100)"

section \<open>The reporting layer\<close>

text \<open>
  \<^verbatim>\<open>calculate_burndown\<close>. The current date (\<^verbatim>\<open>date.today()\<close>) is an input of the model. The
  \<^verbatim>\<open>defaultdict(int)\<close> is only read with \<^verbatim>\<open>get(day, 0)\<close>, so it is a map. A chart entry
  holds the day number, the date (which the source renders with \<^verbatim>\<open>isoformat\<close>), the ideal
  and the actual value.
\<close>

record burndown_point =
  bd_day :: int
  bd_date :: date
  bd_ideal :: real
  bd_actual :: int

definition completed_by_day :: "task list \<Rightarrow> date \<Rightarrow> (date \<rightharpoonup> int)" where
  "completed_by_day tasks start =
     fold (\<lambda>task m.
             case completed_at task of
               None \<Rightarrow> m
             | Some c \<Rightarrow>
                 if is_done task \<and> start \<le> dt_date c
                 then m(dt_date c \<mapsto> (case m (dt_date c) of None \<Rightarrow> 0 | Some v \<Rightarrow> v) + story_points task)
                 else m)
       tasks Map.empty"

text \<open>The loop \<^verbatim>\<open>for i in range(sprint_days + 1)\<close> with its running \<^verbatim>\<open>remaining\<close>.\<close>

fun chart_loop ::
  "(date \<rightharpoonup> int) \<Rightarrow> date \<Rightarrow> int \<Rightarrow> real \<Rightarrow> int list \<Rightarrow> int \<Rightarrow> error + burndown_point list" where
  "chart_loop cbd start total_points ideal_per_day [] remaining = Inr []"
| "chart_loop cbd start total_points ideal_per_day (i # rest) remaining =
     (case date_add start i of
        Inl e \<Rightarrow> Inl e
      | Inr day \<Rightarrow>
          (let remaining' = remaining - (case cbd day of None \<Rightarrow> 0 | Some v \<Rightarrow> v);
               point = \<lparr>bd_day = i, bd_date = day,
                        bd_ideal = round2 (int_sub_float total_points (float_mul_int ideal_per_day i)),
                        bd_actual = remaining'\<rparr>
           in case chart_loop cbd start total_points ideal_per_day rest remaining' of
                Inl e \<Rightarrow> Inl e
              | Inr chart \<Rightarrow> Inr (point # chart)))"

definition calculate_burndown ::
  "store \<Rightarrow> date \<Rightarrow> string \<Rightarrow> int \<Rightarrow> error + burndown_point list" where
  "calculate_burndown s today pid sprint_days =
     (let tasks = get_project_tasks s pid;
          total_points = sum_list (map story_points tasks)
      in if total_points = 0 then Inr []
         else
           (case date_sub today sprint_days of
              Inl e \<Rightarrow> Inl e
            | Inr start \<Rightarrow>
                (case truediv total_points sprint_days of
                   Inl e \<Rightarrow> Inl e
                 | Inr ideal_per_day \<Rightarrow>
                     chart_loop (completed_by_day tasks start) start total_points
                       ideal_per_day [0..sprint_days] total_points)))"

text \<open>
  \<^verbatim>\<open>export_gantt_csv\<close>. The result is the list of rows handed to \<^verbatim>\<open>csv.writer\<close>, a cell
  being a string, an integer or a date rendered by \<^verbatim>\<open>isoformat\<close>; the encoding of the
  rows as CSV text is the library's and is not modelled. The message of the error is
  built with \<^verbatim>\<open>repr\<close>: the string is put in single quotes, or in double quotes when it
  holds a single quote and no double quote; the quote in use and the backslash are
  escaped by a backslash, tab, newline and carriage return are written \<^verbatim>\<open>\t\<close>, \<^verbatim>\<open>\n\<close>,
  \<^verbatim>\<open>\r\<close>, and any other ASCII control character is written \<^verbatim>\<open>\xhh\<close>. Characters beyond
  ASCII are taken to be printable.
\<close>

definition hex_digit :: "nat \<Rightarrow> char" where
  "hex_digit n = ''0123456789abcdef'' ! n"

definition repr_char :: "char \<Rightarrow> char \<Rightarrow> string" where
  "repr_char quote c =
     (if c = quote \<or> c = CHR 0x5C then [CHR 0x5C, c]
      else if c = CHR 0x09 then [CHR 0x5C, CHR ''t'']
      else if c = CHR 0x0A then [CHR 0x5C, CHR ''n'']
      else if c = CHR 0x0D then [CHR 0x5C, CHR ''r'']
      else if (of_char c :: nat) < 32 \<or> c = CHR 0x7F
        then [CHR 0x5C, CHR ''x'', hex_digit (of_char c div 16), hex_digit (of_char c mod 16)]
      else [c])"

definition repr :: "string \<Rightarrow> string" where
  "repr s =
     (let quote = (if CHR 0x27 \<in> set s \<and> CHR 0x22 \<notin> set s then CHR 0x22 else CHR 0x27)
      in quote # concat (map (repr_char quote) s) @ [quote])"

datatype cell = S string | I int | D date

definition gantt_header :: "cell list" where
  "gantt_header =
     [S ''Task ID'', S ''Title'', S ''Assignee'', S ''Priority'', S ''Status'',
      S ''Story Points'', S ''Due Date'', S ''Dependencies'', S ''Critical Path'']"

fun join :: "string \<Rightarrow> string list \<Rightarrow> string" where
  "join sep [] = []"
| "join sep [x] = x"
| "join sep (x # y # r) = x @ sep @ join sep (y # r)"

definition gantt_row :: "string set \<Rightarrow> task \<Rightarrow> cell list" where
  "gantt_row cp_ids task =
     [S (take 8 (t_id task)), S (title task), S (assignee task), I (priority task),
      S (t_status task), I (story_points task),
      (case due_date task of None \<Rightarrow> S '''' | Some d \<Rightarrow> D d),
      S (join ''|'' (map (take 8) (dependencies task))),
      S (if t_id task \<in> cp_ids then ''YES'' else ''no'')]"

definition not_found :: "string \<Rightarrow> error" where
  "not_found pid = ValueError (''Project '' @ repr pid @ '' not found'')"

definition export_gantt_csv :: "store \<Rightarrow> string \<Rightarrow> (error + cell list list) option" where
  "export_gantt_csv s pid =
     (case get_project s pid of
        None \<Rightarrow> Some (Inl (not_found pid))
      | Some project \<Rightarrow>
          (let tasks = get_project_tasks s pid
           in case get_critical_path s pid of
                None \<Rightarrow> None
              | Some (Inl e) \<Rightarrow> Some (Inl e)
              | Some (Inr cp) \<Rightarrow>
                  Some (Inr (gantt_header # map (gantt_row (set (map t_id cp))) tasks))))"

text \<open>
  \<^verbatim>\<open>check_deadlines\<close>. The current date is an input of the model. The task query has no
  \<^verbatim>\<open>ORDER BY\<close>; its rows are taken in insertion order. \<^verbatim>\<open>alerts.sort\<close> is stable.
\<close>

datatype alert =
    ProjectAlert (al_id: string) (al_name: string) (al_owner: string) (al_date: date)
      (days_remaining: int) (urgency: string)
  | TaskAlert (al_id: string) (al_title: string) (al_assignee: string) (al_date: date)
      (days_remaining: int) (urgency: string)

definition urgency_of :: "int \<Rightarrow> string" where
  "urgency_of delta =
     (if delta < 0 then ''overdue'' else if delta = 0 then ''today'' else ''upcoming'')"

definition project_alert :: "date \<Rightarrow> project \<Rightarrow> alert" where
  "project_alert today p =
     ProjectAlert (p_id p) (name p) (owner p) (deadline p) (deadline p - today)
       (urgency_of (deadline p - today))"

definition task_alert :: "date \<Rightarrow> task_row \<Rightarrow> date \<Rightarrow> alert" where
  "task_alert today row due =
     TaskAlert (t_id row) (title row) (assignee row) due (due - today) (urgency_of (due - today))"

definition check_deadlines :: "store \<Rightarrow> date \<Rightarrow> int \<Rightarrow> error + alert list" where
  "check_deadlines s today days_ahead =
     (case date_add today days_ahead of
        Inl e \<Rightarrow> Inl e
      | Inr horizon \<Rightarrow>
          (let project_alerts =
                 map (project_alert today)
                   (filter (\<lambda>p. deadline p - today \<le> days_ahead)
                      (list_projects s (Some ''active'')));
               task_alerts =
                 concat (map (\<lambda>row. case due_date row of
                                       None \<Rightarrow> []
                                     | Some due \<Rightarrow>
                                         if t_status row \<noteq> ''done'' \<and> t_status row \<noteq> ''blocked''
                                            \<and> due \<le> horizon
                                         then [task_alert today row due] else [])
                           (tbl_tasks s))
           in Inr (sort_key days_remaining (project_alerts @ task_alerts))))"

section \<open>Notions for the proofs\<close>

text \<open>
  Notions for the analysis of the loop: the number of edges into \<open>k\<close> whose source has
  not been emitted yet, the position of an element in a list, and the invariant of the
  loop \<^verbatim>\<open>while queue\<close>.
\<close>

definition remaining :: "task list \<Rightarrow> string list \<Rightarrow> string \<Rightarrow> nat" where
  "remaining tasks emitted k =
     length (filter (\<lambda>e. snd e = k \<and> fst e \<notin> set emitted) (edge_list tasks))"

definition index_of :: "'a list \<Rightarrow> 'a \<Rightarrow> nat" where
  "index_of xs x = length (takeWhile (\<lambda>y. y \<noteq> x) xs)"

definition kahn_inv :: "task list \<Rightarrow> kahn_state \<Rightarrow> bool" where
  "kahn_inv tasks st \<longleftrightarrow>
     distinct (topo_order st @ queue st)
   \<and> set (topo_order st @ queue st) \<subseteq> t_id ` set tasks
   \<and> (\<forall>k. map_of (in_deg st) k =
         (if k \<in> t_id ` set tasks then Some (int (remaining tasks (topo_order st) k)) else None))
   \<and> (\<forall>k \<in> t_id ` set tasks.
         k \<in> set (topo_order st @ queue st) \<longleftrightarrow> remaining tasks (topo_order st) k = 0)
   \<and> (\<forall>k \<in> t_id ` set tasks. map_of (earliest st) k \<noteq> None \<and> map_of (pred st) k \<noteq> None)
   \<and> (\<forall>k p. map_of (pred st) k = Some (Some p) \<longrightarrow>
         p \<in> set (topo_order st) \<and> (p, k) \<in> set (edge_list tasks))
   \<and> (\<forall>s k. (s, k) \<in> set (edge_list tasks) \<and> k \<in> set (topo_order st) \<longrightarrow>
         s \<in> set (topo_order st) \<and> index_of (topo_order st) s < index_of (topo_order st) k)"

text \<open>A list is a trace of the predecessor map when each element is the recorded
  predecessor of the one before it and the last element has no predecessor: what the loop
  \<^verbatim>\<open>while cur is not None\<close> collects.\<close>

fun is_trace :: "(string \<rightharpoonup> string option) \<Rightarrow> string list \<Rightarrow> bool" where
  "is_trace m [] = False"
| "is_trace m [x] = (m x = Some None)"
| "is_trace m (x # y # r) = (m x = Some (Some y) \<and> is_trace m (y # r))"

definition mk_task :: "string \<Rightarrow> int \<Rightarrow> int \<Rightarrow> string list \<Rightarrow> task" where
  "mk_task i p w deps =
     ex_todo_task\<lparr>t_id := i, priority := p, story_points := w, dependencies := deps\<rparr>"

definition ex_self_store :: store where
  "ex_self_store = apply_ops empty_store [AddTask (mk_task ''t1'' 2 3 [''t1'']), AddTask (mk_task ''t2'' 1 1 [])]"

definition ex_cycle_store :: store where
  "ex_cycle_store =
     add_dependency
       (apply_ops empty_store
          [AddTask (mk_task ''t1'' 2 1 []), AddTask (mk_task ''t2'' 1 1 [''t1''])])
       ''t1'' ''t2''"

text \<open>
  The part of the loop invariant that concerns the longest-path labels: labels are never
  negative, the label of a task is at least the finish time of every emitted prerequisite,
  and it is zero with no predecessor recorded or the finish time of the recorded
  predecessor.
\<close>

definition earliest_inv :: "task list \<Rightarrow> kahn_state \<Rightarrow> bool" where
  "earliest_inv tasks st \<longleftrightarrow>
     (\<forall>k e. map_of (earliest st) k = Some e \<longrightarrow> 0 \<le> e)
   \<and> (\<forall>s k es ts ek.
         (s, k) \<in> set (edge_list tasks) \<and> s \<in> set (topo_order st)
         \<and> map_of (earliest st) s = Some es \<and> map_of (dict_comp (\<lambda>t. t) tasks) s = Some ts
         \<and> map_of (earliest st) k = Some ek \<longrightarrow> es + story_points ts \<le> ek)
   \<and> (\<forall>k. map_of (pred st) k = Some None \<longrightarrow> map_of (earliest st) k = Some 0)
   \<and> (\<forall>k p. map_of (pred st) k = Some (Some p) \<longrightarrow>
         (\<exists>ep tp. map_of (earliest st) p = Some ep
            \<and> map_of (dict_comp (\<lambda>t. t) tasks) p = Some tp
            \<and> map_of (earliest st) k = Some (ep + story_points tp)))"

text \<open>The longest-path label of a key in a state of the loop (zero for a missing key).\<close>

definition label :: "kahn_state \<Rightarrow> string \<Rightarrow> int" where
  "label st k = (case map_of (earliest st) k of None \<Rightarrow> 0 | Some e \<Rightarrow> e)"

text \<open>What holds when the loop has ended on an acyclic graph of tasks with distinct ids and
  positive story points.\<close>

definition final_ok :: "task list \<Rightarrow> kahn_state \<Rightarrow> bool" where
  "final_ok tasks st \<longleftrightarrow>
     kahn_inv tasks st \<and> earliest_inv tasks st
     \<and> set (topo_order st) = t_id ` set tasks
     \<and> distinct (map t_id tasks)
     \<and> (\<forall>t\<in>set tasks. 0 < story_points t)"

section \<open>What the critical path is\<close>

text \<open>
  A dependency chain is a nonempty sequence of input tasks in which every task lists its
  predecessor in the sequence as a dependency; its weight is the sum of the story points.
  The earliest start of a task is the largest weight of a chain that ends in one of its
  prerequisites (zero when there is none), its finish time is the earliest start plus its
  own story points. These follow the words of the specification, not the code.
\<close>

fun dep_chain :: "task list \<Rightarrow> task list \<Rightarrow> bool" where
  "dep_chain tasks [] = False"
| "dep_chain tasks [t] = (t \<in> set tasks)"
| "dep_chain tasks (a # b # r) =
     (a \<in> set tasks \<and> t_id a \<in> set (dependencies b) \<and> dep_chain tasks (b # r))"

definition chain_weight :: "task list \<Rightarrow> int" where
  "chain_weight c = sum_list (map story_points c)"

definition earliest_start :: "task list \<Rightarrow> task \<Rightarrow> int" where
  "earliest_start tasks t =
     Max (insert 0 {chain_weight c | c. dep_chain tasks c \<and> t_id (last c) \<in> set (dependencies t)})"

definition finish_time :: "task list \<Rightarrow> task \<Rightarrow> int" where
  "finish_time tasks t = earliest_start tasks t + story_points t"

text \<open>The uniqueness constraints of the three tables.\<close>

definition store_wf :: "store \<Rightarrow> bool" where
  "store_wf s \<longleftrightarrow>
     distinct (map p_id (tbl_projects s)) \<and> distinct (map t_id (tbl_tasks s))
     \<and> distinct (tbl_dependencies s)"

definition ex_diamond_store :: store where
  "ex_diamond_store = apply_ops empty_store
     [AddTask (mk_task ''a'' 1 2 []), AddTask (mk_task ''b'' 1 5 [''a'']),
      AddTask (mk_task ''c'' 1 1 [''a'']), AddTask (mk_task ''d'' 1 1 [''b'', ''c''])]"

definition ex_chain_store :: store where
  "ex_chain_store = apply_ops empty_store
     [AddTask (mk_task ''c'' 1 1 [''b'']), AddTask (mk_task ''a'' 1 2 []),
      AddTask (mk_task ''b'' 1 5 [''a''])]"

definition ex_zero_store :: store where
  "ex_zero_store = apply_ops empty_store
     [AddTask (mk_task ''a'' 1 0 []), AddTask (mk_task ''b'' 1 5 [''a'']),
      AddTask (mk_task ''c'' 1 1 [''b''])]"

text \<open>Three tasks of two story points each, and two tasks whose story points cancel.\<close>

definition ex_three_store :: store where
  "ex_three_store = apply_ops empty_store
     [AddTask (mk_task ''t0'' 3 2 []), AddTask (mk_task ''t1'' 3 2 []),
      AddTask (mk_task ''t2'' 3 2 [])]"

definition ex_signed_store :: store where
  "ex_signed_store = apply_ops empty_store
     [AddTask (mk_task ''t0'' 3 2 []), AddTask (mk_task ''t1'' 3 (- 2) [])]"

text \<open>A store with two projects, one of them on hold, and four tasks.\<close>

definition ex_project :: project where
  "ex_project =
     \<lparr>name = ''Launch'', owner = ''ann'', deadline = 739003, p_id = ''p'', p_status = ''active'',
      description = [], p_created_at = ex_time\<rparr>"

definition ex_report_store :: store where
  "ex_report_store =
     (apply_ops empty_store
        [AddTask ((mk_task ''a'' 1 2 [])\<lparr>due_date := Some 739000\<rparr>),
         AddTask ((mk_task ''b'' 2 3 [''a''])\<lparr>due_date := Some 738998\<rparr>),
         AddTask ((mk_task ''c'' 3 1 [])\<lparr>due_date := Some 739001, t_status := ''blocked''\<rparr>),
         AddTask ((mk_task ''d'' 4 1 [])\<lparr>due_date := Some 739020\<rparr>)])
     \<lparr>tbl_projects :=
        [ex_project, ex_project\<lparr>p_id := ''h'', p_status := ''on_hold'', deadline := 739001\<rparr>]\<rparr>"

section \<open>Auxiliary facts about lists\<close>

lemma find_Some_set: "find P xs = Some x \<Longrightarrow> x \<in> set xs \<and> P x"
  by (induction xs) (auto split: if_splits)

lemma find_None_filter: "(find P xs = None) = (filter P xs = [])"
  by (induction xs) auto

lemma find_map_upd:
  assumes "\<And>r. t_id (f r) = t_id r"
  shows "find (\<lambda>r. t_id r = tid) (map (\<lambda>r. if t_id r = tid then f r else r) rows) =
         map_option f (find (\<lambda>r. t_id r = tid) rows)"
  using assms by (induction rows) auto

section \<open>The completion invariant\<close>

lemma update_task_status_get:
  "get_task (fst (update_task_status s now tid status)) tid = Some t \<Longrightarrow>
     t_status t = status \<and> completed_at t = (if status = ''done'' then Some now else None)"
  by (auto simp: get_task_def update_task_status_def Let_def find_map_upd row_to_task_def
        task_row.defs split: option.splits)

lemma update_task_status_rowcount:
  "snd (update_task_status s now tid status) \<longleftrightarrow> get_task s tid \<noteq> None"
  by (simp add: get_task_def update_task_status_def Let_def find_None_filter [symmetric]
        split: option.splits)

lemma update_task_status_consistent:
  "store_consistent s \<Longrightarrow> store_consistent (fst (update_task_status s now tid status))"
  by (auto simp: store_consistent_def update_task_status_def Let_def list_all_iff
        completion_consistent_def)

lemma add_task_consistent:
  "store_consistent s \<Longrightarrow> completion_consistent t \<Longrightarrow> add_task s t = Inr (s', t') \<Longrightarrow>
     store_consistent s'"
  by (auto simp: store_consistent_def add_task_def sqlite_integer_def list_all_iff completion_consistent_def
        task_row.defs split: if_splits)

lemma apply_op_consistent:
  "store_consistent s \<Longrightarrow> op_consistent x \<Longrightarrow> store_consistent (apply_op s x)"
  by (cases x) (auto simp: update_task_status_consistent split: sum.splits
        dest: add_task_consistent)

lemma apply_ops_consistent:
  "store_consistent s \<Longrightarrow> list_all op_consistent ops \<Longrightarrow> store_consistent (apply_ops s ops)"
  unfolding apply_ops_def
  by (induction ops arbitrary: s) (auto simp: apply_op_consistent)

lemma update_task_status_task:
  "get_task s tid = Some t \<Longrightarrow>
     get_task (fst (update_task_status s now tid status)) tid =
       Some (t\<lparr>t_status := status,
               completed_at := (if status = ''done'' then Some now else None)\<rparr>)"
  by (auto simp: get_task_def update_task_status_def Let_def find_map_upd row_to_task_def
        task_row.defs task.defs select_depends_on_def split: option.splits)

lemma find_map_other:
  assumes "\<And>r. t_id (f r) = t_id r" and "tid' \<noteq> tid"
  shows "find (\<lambda>r. t_id r = tid') (map (\<lambda>r. if t_id r = tid then f r else r) rows) =
         find (\<lambda>r. t_id r = tid') rows"
  using assms by (induction rows) auto

lemma select_depends_on_tasks [simp]:
  "select_depends_on (s\<lparr>tbl_tasks := rows\<rparr>) tid = select_depends_on s tid"
  by (simp add: select_depends_on_def)

lemma update_task_status_other:
  "tid' \<noteq> tid \<Longrightarrow> get_task (fst (update_task_status s now tid status)) tid' = get_task s tid'"
  by (simp add: get_task_def update_task_status_def Let_def find_map_other split: option.split)

lemma map_upd_absent:
  "find (\<lambda>r. t_id r = tid) rows = None \<Longrightarrow> map (\<lambda>r. if t_id r = tid then f r else r) rows = rows"
  by (induction rows) (auto split: if_splits)

lemma update_task_status_absent:
  "get_task s tid = None \<Longrightarrow> update_task_status s now tid status = (s, False)"
  by (simp add: get_task_def update_task_status_def Let_def map_upd_absent
        find_None_filter [symmetric] split: option.splits)

text \<open>
  C5, as stated, fails: \<^verbatim>\<open>add_task\<close> stores the status and the completion time of the
  \<^verbatim>\<open>Task\<close> it is given without relating them, so adding a task built with status
  \<^verbatim>\<open>"done"\<close> and no completion time leaves a stored task that is done and has no
  completion time.
\<close>

theorem C5_add_task_counterexample:
  "map_option (\<lambda>t. (t_status t, completed_at t))
     (get_task (apply_ops empty_store [AddTask ex_done_task]) ''t'') = Some (''done'', None)"
  by (simp add: apply_ops_def add_task_def sqlite_integer_def empty_store_def ex_done_task_def get_task_def
        task_row.defs row_to_task_def)

text \<open>
  C5, amended: \<^verbatim>\<open>update_task_status(id, status)\<close> keeps the task with that id, gives
  it the new status and a completion time that is the current time when the status is
  \<^verbatim>\<open>"done"\<close> and absent for any other status, changes nothing else of it and no other
  task, and returns whether the task exists (for an unknown id the store is unchanged); and
  the invariant ``\<^verbatim>\<open>completed_at\<close> is non-null iff the status is done'' holds for every
  stored task after every sequence of \<^verbatim>\<open>add_task\<close> and \<^verbatim>\<open>update_task_status\<close> calls that
  starts from a store where it holds, provided each task handed to \<^verbatim>\<open>add_task\<close>
  satisfies it.
\<close>

theorem C5_completion_invariant:
  "(store_consistent s \<and> list_all op_consistent ops \<longrightarrow> store_consistent (apply_ops s ops))
   \<and> (\<forall>t. get_task s tid = Some t \<longrightarrow>
          get_task (fst (update_task_status s now tid status)) tid =
            Some (t\<lparr>t_status := status,
                    completed_at := (if status = ''done'' then Some now else None)\<rparr>))
   \<and> (\<forall>t. get_task (fst (update_task_status s now tid status)) tid = Some t \<longrightarrow>
          t_status t = status \<and> completed_at t = (if status = ''done'' then Some now else None))
   \<and> (\<forall>tid'. tid' \<noteq> tid \<longrightarrow>
          get_task (fst (update_task_status s now tid status)) tid' = get_task s tid')
   \<and> (get_task s tid = None \<longrightarrow> update_task_status s now tid status = (s, False))
   \<and> (snd (update_task_status s now tid status) \<longleftrightarrow> get_task s tid \<noteq> None)"
proof (intro conjI)
  show "store_consistent s \<and> list_all op_consistent ops \<longrightarrow> store_consistent (apply_ops s ops)"
    by (simp add: apply_ops_consistent)
  show "\<forall>t. get_task s tid = Some t \<longrightarrow>
          get_task (fst (update_task_status s now tid status)) tid =
            Some (t\<lparr>t_status := status,
                    completed_at := (if status = ''done'' then Some now else None)\<rparr>)"
    by (intro allI impI) (rule update_task_status_task)
  show "\<forall>t. get_task (fst (update_task_status s now tid status)) tid = Some t \<longrightarrow>
          t_status t = status \<and> completed_at t = (if status = ''done'' then Some now else None)"
    by (intro allI impI) (rule update_task_status_get)
  show "\<forall>tid'. tid' \<noteq> tid \<longrightarrow>
          get_task (fst (update_task_status s now tid status)) tid' = get_task s tid'"
    by (intro allI impI) (rule update_task_status_other)
  show "get_task s tid = None \<longrightarrow> update_task_status s now tid status = (s, False)"
    by (intro impI) (rule update_task_status_absent)
  show "snd (update_task_status s now tid status) \<longleftrightarrow> get_task s tid \<noteq> None"
    by (rule update_task_status_rowcount)
qed

theorem C5_completion_invariant_witness:
  "store_consistent empty_store
   \<and> list_all op_consistent [AddTask ex_todo_task, UpdateTaskStatus ex_time ''t'' ''done'']
   \<and> store_consistent
        (apply_ops empty_store [AddTask ex_todo_task, UpdateTaskStatus ex_time ''t'' ''done''])
   \<and> get_task (apply_ops empty_store [AddTask ex_todo_task]) ''t'' = Some ex_todo_task
   \<and> get_task (fst (update_task_status (apply_ops empty_store [AddTask ex_todo_task])
           ex_time ''t'' ''done'')) ''t'' =
       Some (ex_todo_task\<lparr>t_status := ''done'', completed_at := Some ex_time\<rparr>)
   \<and> snd (update_task_status (apply_ops empty_store [AddTask ex_todo_task]) ex_time ''t'' ''done'')
   \<and> get_task (apply_ops empty_store [AddTask ex_todo_task]) ''u'' = None
   \<and> update_task_status (apply_ops empty_store [AddTask ex_todo_task]) ex_time ''u'' ''done'' =
       (apply_ops empty_store [AddTask ex_todo_task], False)"
proof -
  have g: "get_task (apply_ops empty_store [AddTask ex_todo_task]) ''t'' = Some ex_todo_task"
    "get_task (apply_ops empty_store [AddTask ex_todo_task]) ''u'' = None"
    by (simp_all add: apply_ops_def add_task_def sqlite_integer_def empty_store_def ex_done_task_def ex_todo_task_def
        get_task_def task_row.defs task.defs row_to_task_def select_depends_on_def)
  have c: "store_consistent empty_store"
    "list_all op_consistent [AddTask ex_todo_task, UpdateTaskStatus ex_time ''t'' ''done'']"
    by (simp_all add: store_consistent_def empty_store_def completion_consistent_def
        ex_todo_task_def ex_done_task_def)
  note A = C5_completion_invariant [of empty_store
      "[AddTask ex_todo_task, UpdateTaskStatus ex_time ''t'' ''done'']" "''t''" ex_time "''done''"]
  note B = C5_completion_invariant [of "apply_ops empty_store [AddTask ex_todo_task]" "[]" "''t''" ex_time "''done''"]
  note C = C5_completion_invariant [of "apply_ops empty_store [AddTask ex_todo_task]" "[]" "''u''" ex_time "''done''"]
  from A [THEN conjunct1] c have 1: "store_consistent
        (apply_ops empty_store [AddTask ex_todo_task, UpdateTaskStatus ex_time ''t'' ''done''])"
    by simp
  from B [THEN conjunct2, THEN conjunct1, rule_format, OF g(1)]
  have 2: "get_task (fst (update_task_status (apply_ops empty_store [AddTask ex_todo_task])
           ex_time ''t'' ''done'')) ''t'' =
       Some (ex_todo_task\<lparr>t_status := ''done'', completed_at := Some ex_time\<rparr>)"
    by simp
  from B [THEN conjunct2, THEN conjunct2, THEN conjunct2, THEN conjunct2, THEN conjunct2] g(1)
  have 3: "snd (update_task_status (apply_ops empty_store [AddTask ex_todo_task]) ex_time ''t'' ''done'')"
    by simp
  from C [THEN conjunct2, THEN conjunct2, THEN conjunct2, THEN conjunct2, THEN conjunct1] g(2)
  have 4: "update_task_status (apply_ops empty_store [AddTask ex_todo_task]) ex_time ''u'' ''done'' =
       (apply_ops empty_store [AddTask ex_todo_task], False)"
    by simp
  from c 1 g(1) 2 3 g(2) 4 show ?thesis by (intro conjI)
qed

section \<open>The order of a project's tasks\<close>

lemma order_key_le:
  "order_key a \<le> order_key b \<longleftrightarrow>
     priority a < priority b \<or>
     (priority a = priority b \<and>
       (due_date a = None \<or> (\<exists>x y. due_date a = Some x \<and> due_date b = Some y \<and> x \<le> y)))"
  by (cases "due_date a"; cases "due_date b") (auto simp: order_key_def)

lemma order_key_row_to_task [simp]: "order_key (row_to_task r d) = order_key r"
  by (simp add: order_key_def row_to_task_def task_row.defs)

lemma truncate_row_to_task [simp]: "task_row.truncate (row_to_task r d) = r"
  by (simp add: row_to_task_def task_row.defs)

lemma get_project_tasks_sorted:
  "sorted (map order_key (get_project_tasks s pid))"
  by (simp add: get_project_tasks_def o_def)

lemma get_project_tasks_rows:
  "mset (map task_row.truncate (get_project_tasks s pid)) =
     mset (filter (\<lambda>r. project_id r = pid) (tbl_tasks s))"
  by (simp add: get_project_tasks_def o_def)

text \<open>
  C4, as stated, fails: the query is \<^verbatim>\<open>ORDER BY priority, due_date\<close> with no
  \<^verbatim>\<open>NULLS LAST\<close>, and SQLite sorts \<^verbatim>\<open>NULL\<close> before every value. Of two tasks of
  priority 1, the one without a due date comes first although it was added last.
\<close>

theorem C4_nulls_last_counterexample:
  "map (\<lambda>t. (t_id t, priority t, due_date t)) (get_project_tasks ex_due_store ''p'') =
     [(''t2'', 1, None), (''t1'', 1, Some 739010)]"
  by (simp add: ex_due_store_def apply_ops_def add_task_def sqlite_integer_def empty_store_def ex_done_task_def
        ex_todo_task_def get_project_tasks_def task_row.defs row_to_task_def order_key_def)

text \<open>
  C4, amended: \<^verbatim>\<open>get_project_tasks\<close> returns exactly the rows of the project (each
  once), ordered by priority ascending, then by due date ascending, with the tasks whose
  due date is absent placed first within their priority group.
\<close>

theorem C4_get_project_tasks_order:
  "mset (map task_row.truncate (get_project_tasks s pid)) =
     mset (filter (\<lambda>r. project_id r = pid) (tbl_tasks s))
   \<and> (\<forall>i j. i < j \<and> j < length (get_project_tasks s pid) \<longrightarrow>
         (let a = get_project_tasks s pid ! i; b = get_project_tasks s pid ! j
          in priority a < priority b \<or>
             (priority a = priority b \<and>
               (due_date a = None \<or>
                (\<exists>x y. due_date a = Some x \<and> due_date b = Some y \<and> x \<le> y)))))"
proof -
  have "order_key (get_project_tasks s pid ! i) \<le> order_key (get_project_tasks s pid ! j)"
    if "i < j" "j < length (get_project_tasks s pid)" for i j
    using get_project_tasks_sorted [of s pid] that
    by (simp add: sorted_iff_nth_mono)
  then have "\<forall>i j. i < j \<and> j < length (get_project_tasks s pid) \<longrightarrow>
         (let a = get_project_tasks s pid ! i; b = get_project_tasks s pid ! j
          in priority a < priority b \<or>
             (priority a = priority b \<and>
               (due_date a = None \<or>
                (\<exists>x y. due_date a = Some x \<and> due_date b = Some y \<and> x \<le> y))))"
    by (simp add: order_key_le Let_def)
  with get_project_tasks_rows [of s pid] show ?thesis
    by (rule conjI)
qed

theorem C4_get_project_tasks_order_witness:
  "(0::nat) < 1 \<and> 1 < length (get_project_tasks ex_due_store ''p'')
   \<and> priority (get_project_tasks ex_due_store ''p'' ! 0) =
       priority (get_project_tasks ex_due_store ''p'' ! 1)
   \<and> due_date (get_project_tasks ex_due_store ''p'' ! 0) = None
   \<and> size (mset (filter (\<lambda>r. project_id r = ''p'') (tbl_tasks ex_due_store))) = 2"
  using C4_get_project_tasks_order [of ex_due_store "''p''"]
  by (simp add: ex_due_store_def apply_ops_def add_task_def sqlite_integer_def empty_store_def ex_done_task_def
        ex_todo_task_def get_project_tasks_def task_row.defs row_to_task_def order_key_def)

section \<open>Facts about dictionaries\<close>

lemma map_of_setitem: "map_of (setitem d k v) = (map_of d)(k \<mapsto> v)"
  by (simp add: setitem_def update_conv')

lemma keys_setitem: "fst ` set (setitem d k v) = insert k (fst ` set d)"
  by (simp add: setitem_def dom_update)

lemma distinct_setitem: "distinct (map fst d) \<Longrightarrow> distinct (map fst (setitem d k v))"
  by (simp add: setitem_def distinct_update)

lemma getitem_Inr: "getitem d k = Inr v \<longleftrightarrow> map_of d k = Some v"
  by (simp add: getitem_def split: option.splits)

lemma getitem_Some: "map_of d k = Some v \<Longrightarrow> getitem d k = Inr v"
  by (simp add: getitem_def)

lemma getitem_default_setitem:
  "getitem_default (setitem d k v) = (getitem_default d)(k := v)"
  by (rule ext) (simp add: getitem_default_def map_of_setitem)

lemma contains_dom: "contains d k \<longleftrightarrow> k \<in> dom (map_of d)"
  by (simp add: contains_def dom_map_of_conv_image_fst)

lemma dict_comp_fold:
  "map_of (fold (\<lambda>t d. setitem d (t_id t) (f t)) ts d0) k = Some v \<Longrightarrow>
     map_of d0 k = Some v \<or> (\<exists>t\<in>set ts. t_id t = k \<and> v = f t)"
proof (induction ts arbitrary: d0)
  case Nil
  then show ?case by simp
next
  case (Cons t ts)
  from Cons.IH [OF Cons.prems [simplified]] show ?case
    by (auto simp: map_of_setitem split: if_splits)
qed

lemma dict_comp_keys_fold:
  "fst ` set (fold (\<lambda>t d. setitem d (t_id t) (f t)) ts d0) = fst ` set d0 \<union> t_id ` set ts"
  by (induction ts arbitrary: d0) (auto simp: keys_setitem)

lemma dict_comp_distinct_fold:
  "distinct (map fst d0) \<Longrightarrow> distinct (map fst (fold (\<lambda>t d. setitem d (t_id t) (f t)) ts d0))"
  by (induction ts arbitrary: d0) (auto simp: distinct_setitem)

lemma dict_comp_keys: "fst ` set (dict_comp f tasks) = t_id ` set tasks"
  by (simp add: dict_comp_def dict_comp_keys_fold)

lemma dict_comp_distinct: "distinct (map fst (dict_comp f tasks))"
  by (simp add: dict_comp_def dict_comp_distinct_fold)

lemma dict_comp_dom: "dom (map_of (dict_comp f tasks)) = t_id ` set tasks"
  by (simp add: dom_map_of_conv_image_fst dict_comp_keys)

lemma dict_comp_Some:
  "map_of (dict_comp f tasks) k = Some v \<Longrightarrow> \<exists>t\<in>set tasks. t_id t = k \<and> v = f t"
  by (auto simp: dict_comp_def dest: dict_comp_fold)

lemma dict_comp_const:
  "map_of (dict_comp (\<lambda>t. c) tasks) k = (if k \<in> t_id ` set tasks then Some c else None)"
proof (cases "map_of (dict_comp (\<lambda>t. c) tasks) k")
  case None
  then show ?thesis using dict_comp_dom [of "\<lambda>t. c" tasks] by (auto simp: domIff)
next
  case (Some v)
  then show ?thesis using dict_comp_dom [of "\<lambda>t. c" tasks] dict_comp_Some [OF Some]
    by (auto simp: domIff)
qed

lemma dict_comp_distinct_ids:
  assumes "distinct (map t_id tasks)" "t \<in> set tasks"
  shows "map_of (dict_comp f tasks) (t_id t) = Some (f t)"
proof -
  from assms(2) have "t_id t \<in> dom (map_of (dict_comp f tasks))"
    by (simp add: dict_comp_dom)
  then obtain v where v: "map_of (dict_comp f tasks) (t_id t) = Some v" by auto
  from dict_comp_Some [OF v] obtain t' where "t' \<in> set tasks" "t_id t' = t_id t" "v = f t'"
    by auto
  with assms have "t' = t" by (auto simp: distinct_map inj_on_def)
  with v \<open>v = f t'\<close> show ?thesis by simp
qed

section \<open>Building the graph\<close>

lemma keys_list_setitem:
  "k \<in> fst ` set d \<Longrightarrow> map fst (setitem d k v) = map fst d"
  by (simp add: setitem_def update_keys)

lemma add_edge_result:
  assumes "map_of (fst g) (t_id t) = Some n"
  shows "add_edge t dep g =
           Inr (setitem (fst g) (t_id t) (n + 1),
                setitem (snd g) dep (getitem_default (snd g) dep @ [t_id t]))"
  using assms by (simp add: add_edge_def getitem_def)

lemma fold_add_edge:
  assumes "t_id t \<in> dom (map_of (fst g))"
  shows "\<exists>g'. fold_err (\<lambda>dep g. if P dep then add_edge t dep g else Inr g) deps g = Inr g'
     \<and> map fst (fst g') = map fst (fst g)
     \<and> (\<forall>k. map_of (fst g') k =
           map_option (\<lambda>n. n + int (length (filter (\<lambda>e. snd e = k)
              (map (\<lambda>d. (d, t_id t)) (filter P deps))))) (map_of (fst g) k))
     \<and> (\<forall>d. getitem_default (snd g') d =
           getitem_default (snd g) d @
             map snd (filter (\<lambda>e. fst e = d) (map (\<lambda>d. (d, t_id t)) (filter P deps))))"
  using assms
proof (induction deps arbitrary: g)
  case Nil
  then show ?case by (simp add: map_option_case split: option.splits)
next
  case (Cons dep deps)
  show ?case
  proof (cases "P dep")
    case False
    with Cons.IH [OF Cons.prems] show ?thesis by simp
  next
    case True
    from Cons.prems obtain n where n: "map_of (fst g) (t_id t) = Some n" by auto
    define g1 where "g1 = (setitem (fst g) (t_id t) (n + 1),
                setitem (snd g) dep (getitem_default (snd g) dep @ [t_id t]))"
    have step: "add_edge t dep g = Inr g1"
      by (simp add: add_edge_result [OF n] g1_def)
    have dom1: "t_id t \<in> dom (map_of (fst g1))"
      by (simp add: g1_def map_of_setitem)
    have keys1: "map fst (fst g1) = map fst (fst g)"
      using Cons.prems by (simp add: g1_def keys_list_setitem dom_map_of_conv_image_fst)
    have m1: "map_of (fst g1) = (map_of (fst g))(t_id t \<mapsto> n + 1)"
      by (simp add: g1_def map_of_setitem)
    have c1: "getitem_default (snd g1) =
                (getitem_default (snd g))(dep := getitem_default (snd g) dep @ [t_id t])"
      by (simp add: g1_def getitem_default_setitem)
    from Cons.IH [OF dom1] obtain g' where
      g': "fold_err (\<lambda>dep g. if P dep then add_edge t dep g else Inr g) deps g1 = Inr g'"
        "map fst (fst g') = map fst (fst g1)"
        "\<And>k. map_of (fst g') k =
           map_option (\<lambda>n. n + int (length (filter (\<lambda>e. snd e = k)
              (map (\<lambda>d. (d, t_id t)) (filter P deps))))) (map_of (fst g1) k)"
        "\<And>d. getitem_default (snd g') d =
           getitem_default (snd g1) d @
             map snd (filter (\<lambda>e. fst e = d) (map (\<lambda>d. (d, t_id t)) (filter P deps)))"
      by blast
    have "fold_err (\<lambda>dep g. if P dep then add_edge t dep g else Inr g) (dep # deps) g = Inr g'"
      using True step g'(1) by simp
    moreover have "map fst (fst g') = map fst (fst g)"
      using g'(2) keys1 by simp
    moreover have "map_of (fst g') k =
           map_option (\<lambda>n. n + int (length (filter (\<lambda>e. snd e = k)
              (map (\<lambda>d. (d, t_id t)) (filter P (dep # deps)))))) (map_of (fst g) k)" for k
      using True n by (cases "k = t_id t") (simp_all add: g'(3) m1)
    moreover have "getitem_default (snd g') d =
           getitem_default (snd g) d @
             map snd (filter (\<lambda>e. fst e = d) (map (\<lambda>d. (d, t_id t)) (filter P (dep # deps))))" for d
      using True by (cases "d = dep") (simp_all add: g'(4) c1)
    ultimately show ?thesis by blast
  qed
qed

lemma fold_tasks_add_edge:
  assumes "t_id ` set ts \<subseteq> dom (map_of (fst g))"
  shows "\<exists>g'. fold_err (\<lambda>task. fold_err (\<lambda>dep g. if P dep then add_edge task dep g else Inr g)
                  (dependencies task)) ts g = Inr g'
     \<and> map fst (fst g') = map fst (fst g)
     \<and> (\<forall>k. map_of (fst g') k =
           map_option (\<lambda>n. n + int (length (filter (\<lambda>e. snd e = k)
              (concat (map (\<lambda>t. map (\<lambda>d. (d, t_id t)) (filter P (dependencies t))) ts)))))
             (map_of (fst g) k))
     \<and> (\<forall>d. getitem_default (snd g') d =
           getitem_default (snd g) d @
             map snd (filter (\<lambda>e. fst e = d)
               (concat (map (\<lambda>t. map (\<lambda>d. (d, t_id t)) (filter P (dependencies t))) ts))))"
  using assms
proof (induction ts arbitrary: g)
  case Nil
  then show ?case by (simp add: map_option_case split: option.splits)
next
  case (Cons t ts)
  let ?es = "\<lambda>t. map (\<lambda>d. (d, t_id t)) (filter P (dependencies t))"
  from Cons.prems have "t_id t \<in> dom (map_of (fst g))" by simp
  from fold_add_edge [OF this, of P "dependencies t"] obtain g1 where
    g1: "fold_err (\<lambda>dep g. if P dep then add_edge t dep g else Inr g) (dependencies t) g = Inr g1"
      "map fst (fst g1) = map fst (fst g)"
      "\<And>k. map_of (fst g1) k =
           map_option (\<lambda>n. n + int (length (filter (\<lambda>e. snd e = k) (?es t)))) (map_of (fst g) k)"
      "\<And>d. getitem_default (snd g1) d =
           getitem_default (snd g) d @ map snd (filter (\<lambda>e. fst e = d) (?es t))"
    by blast
  have "dom (map_of (fst g1)) = dom (map_of (fst g))"
    using g1(2) by (metis dom_map_of_conv_image_fst list.set_map)
  with Cons.prems have "t_id ` set ts \<subseteq> dom (map_of (fst g1))" by simp
  from Cons.IH [OF this] obtain g' where
    g': "fold_err (\<lambda>task. fold_err (\<lambda>dep g. if P dep then add_edge task dep g else Inr g)
                  (dependencies task)) ts g1 = Inr g'"
      "map fst (fst g') = map fst (fst g1)"
      "\<And>k. map_of (fst g') k =
           map_option (\<lambda>n. n + int (length (filter (\<lambda>e. snd e = k) (concat (map ?es ts)))))
             (map_of (fst g1) k)"
      "\<And>d. getitem_default (snd g') d =
           getitem_default (snd g1) d @ map snd (filter (\<lambda>e. fst e = d) (concat (map ?es ts)))"
    by blast
  have "fold_err (\<lambda>task. fold_err (\<lambda>dep g. if P dep then add_edge task dep g else Inr g)
                  (dependencies task)) (t # ts) g = Inr g'"
    using g1(1) g'(1) by simp
  moreover have "map fst (fst g') = map fst (fst g)"
    using g1(2) g'(2) by simp
  moreover have "map_of (fst g') k =
           map_option (\<lambda>n. n + int (length (filter (\<lambda>e. snd e = k) (concat (map ?es (t # ts))))))
             (map_of (fst g) k)" for k
    by (cases "map_of (fst g) k") (simp_all add: g'(3) g1(3))
  moreover have "getitem_default (snd g') d =
           getitem_default (snd g) d @
             map snd (filter (\<lambda>e. fst e = d) (concat (map ?es (t # ts))))" for d
    by (simp add: g'(4) g1(4))
  ultimately show ?case by blast
qed

lemma build_graph_result:
  "\<exists>g. build_graph (dict_comp (\<lambda>t. t) tasks) tasks = Inr g
     \<and> distinct (map fst (fst g))
     \<and> (\<forall>k. map_of (fst g) k =
           (if k \<in> t_id ` set tasks
            then Some (int (length (filter (\<lambda>e. snd e = k) (edge_list tasks)))) else None))
     \<and> (\<forall>d. getitem_default (snd g) d = map snd (filter (\<lambda>e. fst e = d) (edge_list tasks)))"
proof -
  let ?g0 = "(dict_comp (\<lambda>t. 0::int) tasks, [] :: string list dict)"
  have "t_id ` set tasks \<subseteq> dom (map_of (fst ?g0))"
    by (simp add: dict_comp_dom)
  from fold_tasks_add_edge [OF this, of "contains (dict_comp (\<lambda>t. t) tasks)"]
  obtain g where g: "build_graph (dict_comp (\<lambda>t. t) tasks) tasks = Inr g"
      "map fst (fst g) = map fst (fst ?g0)"
      "\<And>k. map_of (fst g) k =
           map_option (\<lambda>n. n + int (length (filter (\<lambda>e. snd e = k) (edge_list tasks))))
             (map_of (fst ?g0) k)"
      "\<And>d. getitem_default (snd g) d =
           getitem_default (snd ?g0) d @ map snd (filter (\<lambda>e. fst e = d) (edge_list tasks))"
    unfolding build_graph_def edge_list_def contains_def dict_comp_keys by blast
  have "distinct (map fst (fst g))"
    using g(2) by (simp add: dict_comp_distinct)
  moreover have "map_of (fst g) k =
           (if k \<in> t_id ` set tasks
            then Some (int (length (filter (\<lambda>e. snd e = k) (edge_list tasks)))) else None)" for k
    by (simp add: g(3) dict_comp_const)
  moreover have "getitem_default (snd g) d = map snd (filter (\<lambda>e. fst e = d) (edge_list tasks))" for d
    using g(4) [of d] by (simp add: getitem_default_def)
  ultimately show ?thesis using g(1) by blast
qed

lemma set_edge_list: "set (edge_list tasks) = dep_edges tasks"
  by (auto simp: edge_list_def dep_edges_def)

section \<open>One pass over the children of a task\<close>

lemma relax_result:
  assumes "map_of (earliest st) c = Some ec" and "map_of (in_deg st) c = Some n"
  shows "\<exists>st1. relax tid fin c st = Inr st1
     \<and> topo_order st1 = topo_order st
     \<and> queue st1 = (if n = 1 then queue st @ [c] else queue st)
     \<and> map_of (in_deg st1) = (map_of (in_deg st))(c \<mapsto> n - 1)
     \<and> map_of (earliest st1) = (map_of (earliest st))(c \<mapsto> max fin ec)
     \<and> map_of (pred st1) =
         (if ec < fin then (map_of (pred st))(c \<mapsto> Some tid) else map_of (pred st))"
  using assms
  by (auto simp: relax_def getitem_def Let_def map_of_setitem max_def fun_upd_idem)

lemma fold_relax_result:
  assumes "\<forall>k\<in>set cs. \<exists>e. map_of (earliest st) k = Some e"
    and "\<forall>k\<in>set cs. \<exists>n. map_of (in_deg st) k = Some n \<and> int (count_list cs k) \<le> n"
  shows "\<exists>st' newq. fold_err (relax tid fin) cs st = Inr st'
     \<and> topo_order st' = topo_order st
     \<and> queue st' = queue st @ newq
     \<and> distinct newq
     \<and> set newq = {k \<in> set cs. map_of (in_deg st) k = Some (int (count_list cs k))}
     \<and> (\<forall>k. map_of (in_deg st') k =
           map_option (\<lambda>n. n - int (count_list cs k)) (map_of (in_deg st) k))
     \<and> (\<forall>k. map_of (earliest st') k =
           (if k \<in> set cs then map_option (max fin) (map_of (earliest st) k)
            else map_of (earliest st) k))
     \<and> (\<forall>k. map_of (pred st') k =
           (if k \<in> set cs \<and> (\<exists>e. map_of (earliest st) k = Some e \<and> e < fin)
            then Some (Some tid) else map_of (pred st) k))"
  using assms
proof (induction cs arbitrary: st)
  case Nil
  then show ?case by (simp add: map_option_case split: option.splits)
next
  case (Cons c cs)
  from Cons.prems(1) obtain ec where ec: "map_of (earliest st) c = Some ec" by auto
  from Cons.prems(2) obtain n where n: "map_of (in_deg st) c = Some n"
    and nge: "int (count_list cs c) + 1 \<le> n" by auto
  from relax_result [OF ec n, of tid fin] obtain st1 where
    st1: "relax tid fin c st = Inr st1" "topo_order st1 = topo_order st"
      "queue st1 = (if n = 1 then queue st @ [c] else queue st)"
      "map_of (in_deg st1) = (map_of (in_deg st))(c \<mapsto> n - 1)"
      "map_of (earliest st1) = (map_of (earliest st))(c \<mapsto> max fin ec)"
      "map_of (pred st1) =
         (if ec < fin then (map_of (pred st))(c \<mapsto> Some tid) else map_of (pred st))"
    by blast
  have p1: "\<forall>k\<in>set cs. \<exists>e. map_of (earliest st1) k = Some e"
    using Cons.prems(1) by (simp add: st1(5))
  have p2: "\<forall>k\<in>set cs. \<exists>n. map_of (in_deg st1) k = Some n \<and> int (count_list cs k) \<le> n"
    using Cons.prems(2) nge by (auto simp: st1(4))
  from Cons.IH [OF p1 p2] obtain st' newq where
    IH: "fold_err (relax tid fin) cs st1 = Inr st'" "topo_order st' = topo_order st1"
      "queue st' = queue st1 @ newq" "distinct newq"
      "set newq = {k \<in> set cs. map_of (in_deg st1) k = Some (int (count_list cs k))}"
      "\<And>k. map_of (in_deg st') k =
           map_option (\<lambda>n. n - int (count_list cs k)) (map_of (in_deg st1) k)"
      "\<And>k. map_of (earliest st') k =
           (if k \<in> set cs then map_option (max fin) (map_of (earliest st1) k)
            else map_of (earliest st1) k)"
      "\<And>k. map_of (pred st') k =
           (if k \<in> set cs \<and> (\<exists>e. map_of (earliest st1) k = Some e \<and> e < fin)
            then Some (Some tid) else map_of (pred st1) k)"
    by blast
  define q where "q = (if n = 1 then [c] else []) @ newq"
  have c_notin: "c \<notin> set cs" if "n = 1"
    using that nge by (simp add: count_list_0_iff [symmetric])
  have "fold_err (relax tid fin) (c # cs) st = Inr st'"
    using st1(1) IH(1) by simp
  moreover have "topo_order st' = topo_order st"
    using IH(2) st1(2) by simp
  moreover have "queue st' = queue st @ q"
    using IH(3) st1(3) by (simp add: q_def)
  moreover have "distinct q"
    using IH(4) IH(5) c_notin by (auto simp: q_def)
  moreover have "set q = {k \<in> set (c # cs). map_of (in_deg st) k = Some (int (count_list (c # cs) k))}"
  proof (cases "n = 1")
    case True
    with c_notin have "count_list cs c = 0" by (simp add: count_list_0_iff)
    with True n c_notin show ?thesis
      by (auto simp: q_def IH(5) st1(4))
  next
    case False
    have "c \<in> set cs" if "n = int (count_list cs c) + 1"
      using that False by (cases "count_list cs c = 0") (auto simp: count_list_0_iff)
    with False n show ?thesis
      by (auto simp: q_def IH(5) st1(4))
  qed
  moreover have "map_of (in_deg st') k =
           map_option (\<lambda>n. n - int (count_list (c # cs) k)) (map_of (in_deg st) k)" for k
    using n by (cases "k = c") (simp_all add: IH(6) st1(4))
  moreover have "map_of (earliest st') k =
           (if k \<in> set (c # cs) then map_option (max fin) (map_of (earliest st) k)
            else map_of (earliest st) k)" for k
    using ec by (cases "k = c") (simp_all add: IH(7) st1(5))
  moreover have "map_of (pred st') k =
           (if k \<in> set (c # cs) \<and> (\<exists>e. map_of (earliest st) k = Some e \<and> e < fin)
            then Some (Some tid) else map_of (pred st) k)" for k
    using ec by (cases "k = c") (auto simp: IH(8) st1(5) st1(6))
  ultimately show ?case by blast
qed

section \<open>One iteration of the loop\<close>

lemma count_children:
  "count_list (map snd (filter (\<lambda>e. fst e = tid) es)) k =
     length (filter (\<lambda>e. snd e = k \<and> fst e = tid) es)"
  by (induction es) auto

lemma remaining_snoc:
  assumes "tid \<notin> set emitted"
  shows "remaining tasks emitted k =
     remaining tasks (emitted @ [tid]) k
       + length (filter (\<lambda>e. snd e = k \<and> fst e = tid) (edge_list tasks))"
proof -
  have "length (filter (\<lambda>e. snd e = k \<and> fst e \<notin> set emitted) es) =
      length (filter (\<lambda>e. snd e = k \<and> fst e \<notin> set (emitted @ [tid])) es)
        + length (filter (\<lambda>e. snd e = k \<and> fst e = tid) es)" for es :: "(string \<times> string) list"
    using assms by (induction es) auto
  then show ?thesis by (simp add: remaining_def)
qed

lemma remaining_0_sources:
  "remaining tasks emitted k = 0 \<Longrightarrow> (s, k) \<in> set (edge_list tasks) \<Longrightarrow> s \<in> set emitted"
  by (auto simp: remaining_def filter_empty_conv)

lemma edge_list_ids:
  "(s, k) \<in> set (edge_list tasks) \<Longrightarrow> s \<in> t_id ` set tasks \<and> k \<in> t_id ` set tasks"
  by (auto simp: edge_list_def)

lemma index_of_append_in: "x \<in> set xs \<Longrightarrow> index_of (xs @ ys) x = index_of xs x"
  unfolding index_of_def by (induction xs) auto

lemma index_of_snoc_notin: "x \<notin> set xs \<Longrightarrow> index_of (xs @ [x]) x = length xs"
  unfolding index_of_def by (induction xs) auto

lemma index_of_less: "x \<in> set xs \<Longrightarrow> index_of xs x < length xs"
  unfolding index_of_def by (induction xs) auto


lemma kahn_inv_distinct:
  "kahn_inv tasks st \<Longrightarrow> distinct (topo_order st @ queue st)"
  unfolding kahn_inv_def by (elim conjE)

lemma kahn_inv_ids:
  "kahn_inv tasks st \<Longrightarrow> set (topo_order st @ queue st) \<subseteq> t_id ` set tasks"
  unfolding kahn_inv_def by (elim conjE)

lemma kahn_inv_in_deg:
  "kahn_inv tasks st \<Longrightarrow> map_of (in_deg st) k =
     (if k \<in> t_id ` set tasks then Some (int (remaining tasks (topo_order st) k)) else None)"
  unfolding kahn_inv_def by (elim conjE) (erule spec)

lemma kahn_inv_zero:
  "kahn_inv tasks st \<Longrightarrow> k \<in> t_id ` set tasks \<Longrightarrow>
     k \<in> set (topo_order st @ queue st) \<longleftrightarrow> remaining tasks (topo_order st) k = 0"
  unfolding kahn_inv_def by (elim conjE) (erule (1) bspec)

lemma kahn_inv_dom:
  "kahn_inv tasks st \<Longrightarrow> k \<in> t_id ` set tasks \<Longrightarrow>
     map_of (earliest st) k \<noteq> None \<and> map_of (pred st) k \<noteq> None"
  unfolding kahn_inv_def by (elim conjE) (erule (1) bspec)

lemma kahn_inv_pred:
  "kahn_inv tasks st \<Longrightarrow> map_of (pred st) k = Some (Some p) \<Longrightarrow>
     p \<in> set (topo_order st) \<and> (p, k) \<in> set (edge_list tasks)"
  unfolding kahn_inv_def by (elim conjE) fast

lemma kahn_inv_topo:
  "kahn_inv tasks st \<Longrightarrow> (s, k) \<in> set (edge_list tasks) \<Longrightarrow> k \<in> set (topo_order st) \<Longrightarrow>
     s \<in> set (topo_order st) \<and> index_of (topo_order st) s < index_of (topo_order st) k"
  unfolding kahn_inv_def by (elim conjE) fast

lemma process_result:
  assumes inv: "kahn_inv tasks st" and q: "queue st = tid # rest"
    and ch: "\<forall>d. getitem_default children d = map snd (filter (\<lambda>e. fst e = d) (edge_list tasks))"
  shows "\<exists>st' newq task et.
       map_of (dict_comp (\<lambda>t. t) tasks) tid = Some task
     \<and> map_of (earliest st) tid = Some et
     \<and> process (dict_comp (\<lambda>t. t) tasks) children tid
           (st\<lparr>queue := rest, topo_order := topo_order st @ [tid]\<rparr>) = Inr st'
     \<and> topo_order st' = topo_order st @ [tid]
     \<and> queue st' = rest @ newq
     \<and> distinct newq
     \<and> set newq = {k. (tid, k) \<in> set (edge_list tasks)
                       \<and> remaining tasks (topo_order st @ [tid]) k = 0}
     \<and> (\<forall>k. map_of (in_deg st') k =
           (if k \<in> t_id ` set tasks
            then Some (int (remaining tasks (topo_order st @ [tid]) k)) else None))
     \<and> (\<forall>k. map_of (earliest st') k =
           (if (tid, k) \<in> set (edge_list tasks)
            then map_option (max (et + story_points task)) (map_of (earliest st) k)
            else map_of (earliest st) k))
     \<and> (\<forall>k. map_of (pred st') k =
           (if (tid, k) \<in> set (edge_list tasks)
               \<and> (\<exists>e. map_of (earliest st) k = Some e \<and> e < et + story_points task)
            then Some (Some tid) else map_of (pred st) k))"
proof -
  let ?E = "edge_list tasks"
  let ?cs = "map snd (filter (\<lambda>e. fst e = tid) ?E)"
  let ?st0 = "st\<lparr>queue := rest, topo_order := topo_order st @ [tid]\<rparr>"
  from kahn_inv_ids [OF inv] kahn_inv_distinct [OF inv] q
  have tid_id: "tid \<in> t_id ` set tasks" and tid_new: "tid \<notin> set (topo_order st)"
    by auto
  from tid_id obtain task where task: "map_of (dict_comp (\<lambda>t. t) tasks) tid = Some task"
    using dict_comp_dom [of "\<lambda>t. t" tasks] by auto
  from kahn_inv_dom [OF inv tid_id] obtain et where et: "map_of (earliest st) tid = Some et"
    by auto
  have cs_set: "k \<in> set ?cs \<longleftrightarrow> (tid, k) \<in> set ?E" for k
    by force
  have cs_ids: "k \<in> t_id ` set tasks" if "k \<in> set ?cs" for k
    using that edge_list_ids [of tid k tasks] by (simp only: cs_set)
  have indeg: "map_of (in_deg st) k =
      (if k \<in> t_id ` set tasks then Some (int (remaining tasks (topo_order st) k)) else None)" for k
    by (rule kahn_inv_in_deg [OF inv])
  have rem: "int (remaining tasks (topo_order st) k) =
      int (remaining tasks (topo_order st @ [tid]) k) + int (count_list ?cs k)" for k
    using remaining_snoc [OF tid_new, of tasks k] by (simp add: count_children)
  have earl_dom: "\<exists>e. map_of (earliest st) k = Some e" if "k \<in> t_id ` set tasks" for k
    using kahn_inv_dom [OF inv that] by auto
  have p1: "\<forall>k\<in>set ?cs. \<exists>e. map_of (earliest ?st0) k = Some e"
  proof
    fix k assume "k \<in> set ?cs"
    then have "k \<in> t_id ` set tasks" by (rule cs_ids)
    then show "\<exists>e. map_of (earliest ?st0) k = Some e" using earl_dom by simp
  qed
  have p2: "\<forall>k\<in>set ?cs. \<exists>n. map_of (in_deg ?st0) k = Some n \<and> int (count_list ?cs k) \<le> n"
  proof
    fix k assume "k \<in> set ?cs"
    then have "k \<in> t_id ` set tasks" by (rule cs_ids)
    then show "\<exists>n. map_of (in_deg ?st0) k = Some n \<and> int (count_list ?cs k) \<le> n"
      using rem [of k] by (simp add: indeg)
  qed
  from fold_relax_result [OF p1 p2, of tid "et + story_points task"]
  obtain st' newq where
    r: "fold_err (relax tid (et + story_points task)) ?cs ?st0 = Inr st'"
      "topo_order st' = topo_order ?st0" "queue st' = queue ?st0 @ newq" "distinct newq"
      "set newq = {k \<in> set ?cs. map_of (in_deg ?st0) k = Some (int (count_list ?cs k))}"
      "\<And>k. map_of (in_deg st') k =
           map_option (\<lambda>n. n - int (count_list ?cs k)) (map_of (in_deg ?st0) k)"
      "\<And>k. map_of (earliest st') k =
           (if k \<in> set ?cs then map_option (max (et + story_points task)) (map_of (earliest ?st0) k)
            else map_of (earliest ?st0) k)"
      "\<And>k. map_of (pred st') k =
           (if k \<in> set ?cs \<and> (\<exists>e. map_of (earliest ?st0) k = Some e \<and> e < et + story_points task)
            then Some (Some tid) else map_of (pred ?st0) k)"
    by blast
  have "process (dict_comp (\<lambda>t. t) tasks) children tid ?st0 = Inr st'"
    using task et r(1) ch by (simp add: process_def getitem_def)
  moreover have "topo_order st' = topo_order st @ [tid]" "queue st' = rest @ newq"
    using r(2,3) by simp_all
  moreover have "set newq = {k. (tid, k) \<in> set ?E \<and> remaining tasks (topo_order st @ [tid]) k = 0}"
  proof -
    have "k \<in> set ?cs \<and> map_of (in_deg st) k = Some (int (count_list ?cs k))
       \<longleftrightarrow> (tid, k) \<in> set ?E \<and> remaining tasks (topo_order st @ [tid]) k = 0" for k
      using cs_ids [of k] rem [of k] by (auto simp: indeg cs_set simp del: set_map)
    then show ?thesis using r(5) by simp
  qed
  moreover have "map_of (in_deg st') k =
           (if k \<in> t_id ` set tasks
            then Some (int (remaining tasks (topo_order st @ [tid]) k)) else None)" for k
    using rem [of k] by (simp add: r(6) indeg)
  moreover have "map_of (earliest st') k =
           (if (tid, k) \<in> set ?E
            then map_option (max (et + story_points task)) (map_of (earliest st) k)
            else map_of (earliest st) k)" for k
    using r(7) [of k] by (simp only: cs_set) auto
  moreover have "map_of (pred st') k =
           (if (tid, k) \<in> set ?E
               \<and> (\<exists>e. map_of (earliest st) k = Some e \<and> e < et + story_points task)
            then Some (Some tid) else map_of (pred st) k)" for k
    using r(8) [of k] by (simp only: cs_set) auto
  ultimately show ?thesis using task et r(4) by blast
qed


lemma edge_count_pos:
  "0 < length (filter (\<lambda>e. snd e = k \<and> fst e = tid) es) \<longleftrightarrow> (tid, k) \<in> set es"
  by (induction es) auto

lemma process_inv:
  assumes inv: "kahn_inv tasks st" and q: "queue st = tid # rest"
    and ch: "\<forall>d. getitem_default children d = map snd (filter (\<lambda>e. fst e = d) (edge_list tasks))"
  shows "\<exists>st'. process (dict_comp (\<lambda>t. t) tasks) children tid
           (st\<lparr>queue := rest, topo_order := topo_order st @ [tid]\<rparr>) = Inr st'
         \<and> kahn_inv tasks st'"
proof -
  let ?E = "edge_list tasks" and ?T = "topo_order st" and ?ids = "t_id ` set tasks"
  from process_result [OF inv q ch] obtain st' newq and task :: task and et where
    r: "process (dict_comp (\<lambda>t. t) tasks) children tid
           (st\<lparr>queue := rest, topo_order := ?T @ [tid]\<rparr>) = Inr st'"
      "topo_order st' = ?T @ [tid]" "queue st' = rest @ newq" "distinct newq"
      "set newq = {k. (tid, k) \<in> set ?E \<and> remaining tasks (?T @ [tid]) k = 0}"
      "\<forall>k. map_of (in_deg st') k =
           (if k \<in> ?ids then Some (int (remaining tasks (?T @ [tid]) k)) else None)"
      "\<forall>k. map_of (earliest st') k =
           (if (tid, k) \<in> set ?E
            then map_option (max (et + story_points task)) (map_of (earliest st) k)
            else map_of (earliest st) k)"
      "\<forall>k. map_of (pred st') k =
           (if (tid, k) \<in> set ?E
               \<and> (\<exists>e. map_of (earliest st) k = Some e \<and> e < et + story_points task)
            then Some (Some tid) else map_of (pred st) k)"
    by blast
  from kahn_inv_distinct [OF inv] kahn_inv_ids [OF inv] q
  have d: "distinct (?T @ tid # rest)" and sub: "set (?T @ tid # rest) \<subseteq> ?ids"
    by simp_all
  have z: "k \<in> set (?T @ tid # rest) \<longleftrightarrow> remaining tasks ?T k = 0" if "k \<in> ?ids" for k
    using kahn_inv_zero [OF inv that] by (simp add: q)
  note dm = kahn_inv_dom [OF inv] and pr = kahn_inv_pred [OF inv] and tp = kahn_inv_topo [OF inv]
  from d have tid_new: "tid \<notin> set ?T" by auto
  have rem: "remaining tasks ?T k = remaining tasks (?T @ [tid]) k
       + length (filter (\<lambda>e. snd e = k \<and> fst e = tid) ?E)" for k
    by (rule remaining_snoc [OF tid_new])
  have new_fresh: "k \<notin> set (?T @ tid # rest)" and new_id: "k \<in> ?ids" if "k \<in> set newq" for k
  proof -
    from that have e: "(tid, k) \<in> set ?E" and "remaining tasks (?T @ [tid]) k = 0"
      by (simp_all add: r(5))
    then have "0 < remaining tasks ?T k"
      using rem [of k] edge_count_pos [of k tid ?E] by simp
    moreover show "k \<in> ?ids" using e edge_list_ids by blast
    ultimately show "k \<notin> set (?T @ tid # rest)" using z [of k] by simp
  qed
  have c1: "distinct (topo_order st' @ queue st')"
    using d r(4) new_fresh by (auto simp: r(2,3))
  have c2: "set (topo_order st' @ queue st') \<subseteq> ?ids"
    using sub new_id by (auto simp: r(2,3))
  have c4: "k \<in> set (topo_order st' @ queue st') \<longleftrightarrow> remaining tasks (topo_order st') k = 0"
    if k: "k \<in> ?ids" for k
  proof
    assume "k \<in> set (topo_order st' @ queue st')"
    then consider "k \<in> set (?T @ tid # rest)" | "k \<in> set newq"
      by (auto simp: r(2,3))
    then show "remaining tasks (topo_order st') k = 0"
    proof cases
      case 1
      then have "remaining tasks ?T k = 0" using z [OF k] by simp
      then show ?thesis using rem [of k] by (simp add: r(2))
    next
      case 2
      then show ?thesis by (simp add: r(2) r(5))
    qed
  next
    assume a: "remaining tasks (topo_order st') k = 0"
    show "k \<in> set (topo_order st' @ queue st')"
    proof (cases "(tid, k) \<in> set ?E")
      case True
      with a have "k \<in> set newq" by (simp add: r(2) r(5))
      then show ?thesis by (simp add: r(3))
    next
      case False
      then have "length (filter (\<lambda>e. snd e = k \<and> fst e = tid) ?E) = 0"
        using edge_count_pos [of k tid ?E] by simp
      with a have "remaining tasks ?T k = 0" using rem [of k] by (simp add: r(2))
      then have "k \<in> set (?T @ tid # rest)" using z [OF k] by simp
      then show ?thesis by (auto simp: r(2,3))
    qed
  qed
  have c5: "map_of (earliest st') k \<noteq> None \<and> map_of (pred st') k \<noteq> None" if "k \<in> ?ids" for k
    using dm [OF that] by (auto simp: r(7) r(8))
  have c6: "p \<in> set (topo_order st') \<and> (p, k) \<in> set ?E"
    if "map_of (pred st') k = Some (Some p)" for k p
    using that pr [of k p] by (auto simp: r(8) r(2) split: if_splits)
  have c7: "s \<in> set (topo_order st') \<and> index_of (topo_order st') s < index_of (topo_order st') k"
    if e: "(s, k) \<in> set ?E" and k: "k \<in> set (topo_order st')" for s k
  proof (cases "k \<in> set ?T")
    case True
    from tp [OF e True] show ?thesis
      using True by (simp add: r(2) index_of_append_in)
  next
    case False
    with k have [simp]: "k = tid" by (simp add: r(2))
    have "tid \<in> ?ids" using sub by simp
    then have "remaining tasks ?T tid = 0" using z [of tid] by simp
    then have "s \<in> set ?T" using e remaining_0_sources by fastforce
    then show ?thesis
      using tid_new by (simp add: r(2) index_of_append_in index_of_snoc_notin index_of_less)
  qed
  have "kahn_inv tasks st'"
    unfolding kahn_inv_def
  proof (intro conjI)
    show "distinct (topo_order st' @ queue st')" by (rule c1)
    show "set (topo_order st' @ queue st') \<subseteq> ?ids" by (rule c2)
    show "\<forall>k. map_of (in_deg st') k =
        (if k \<in> ?ids then Some (int (remaining tasks (topo_order st') k)) else None)"
      by (simp add: r(6) r(2))
    show "\<forall>k\<in>?ids. (k \<in> set (topo_order st' @ queue st')) = (remaining tasks (topo_order st') k = 0)"
      by (intro ballI) (rule c4)
    show "\<forall>k\<in>?ids. map_of (earliest st') k \<noteq> None \<and> map_of (pred st') k \<noteq> None"
      by (intro ballI) (rule c5)
    show "\<forall>k p. map_of (pred st') k = Some (Some p) \<longrightarrow>
        p \<in> set (topo_order st') \<and> (p, k) \<in> set ?E"
      by (intro allI impI) (rule c6)
    show "\<forall>s k. (s, k) \<in> set ?E \<and> k \<in> set (topo_order st') \<longrightarrow>
        s \<in> set (topo_order st') \<and> index_of (topo_order st') s < index_of (topo_order st') k"
      by (intro allI impI, elim conjE) (rule c7)
  qed
  with r(1) show ?thesis by blast
qed

lemma kahn_loop_inv:
  assumes "kahn_inv tasks st"
    and "\<forall>d. getitem_default children d = map snd (filter (\<lambda>e. fst e = d) (edge_list tasks))"
    and "by_id = dict_comp (\<lambda>t. t) tasks"
  shows "\<exists>st'. kahn_loop by_id children st = Inr st' \<and> kahn_inv tasks st' \<and> queue st' = []"
  using assms
proof (induction by_id children st rule: kahn_loop.induct)
  case (1 by_id children st)
  show ?case
  proof (cases "queue st")
    case Nil
    with "1.prems"(1) show ?thesis by (simp add: kahn_loop.simps)
  next
    case (Cons tid rest)
    from process_inv [OF "1.prems"(1) Cons "1.prems"(2)] obtain st1 where
      st1: "process by_id children tid (st\<lparr>queue := rest, topo_order := topo_order st @ [tid]\<rparr>)
              = Inr st1" "kahn_inv tasks st1"
      using "1.prems"(3) by blast
    from "1.IH" [OF Cons st1(1) st1(2) "1.prems"(2,3)] show ?thesis
      using Cons st1(1) by (simp add: kahn_loop.simps [of by_id children st])
  qed
qed

section \<open>The loop as a whole\<close>

lemma initial_state_inv:
  assumes dk: "distinct (map fst in_deg1)"
    and m: "\<forall>k. map_of in_deg1 k =
           (if k \<in> t_id ` set tasks
            then Some (int (length (filter (\<lambda>e. snd e = k) (edge_list tasks)))) else None)"
  shows "kahn_inv tasks (initial_state tasks in_deg1)"
proof -
  let ?st = "initial_state tasks in_deg1" and ?ids = "t_id ` set tasks"
  have rem0: "remaining tasks [] k = length (filter (\<lambda>e. snd e = k) (edge_list tasks))" for k
    by (simp add: remaining_def)
  have qmem: "k \<in> set (queue ?st) \<longleftrightarrow> map_of in_deg1 k = Some 0" for k
    using dk by (auto simp: initial_state_def image_iff)
  show ?thesis
    unfolding kahn_inv_def
  proof (intro conjI)
    show "distinct (topo_order ?st @ queue ?st)"
      using dk by (simp add: initial_state_def distinct_map_filter)
    show "set (topo_order ?st @ queue ?st) \<subseteq> ?ids"
    proof
      fix k assume "k \<in> set (topo_order ?st @ queue ?st)"
      then have "map_of in_deg1 k = Some 0" using qmem by (simp add: initial_state_def)
      then show "k \<in> ?ids" using m by (metis option.distinct(1))
    qed
    show "\<forall>k. map_of (in_deg ?st) k =
        (if k \<in> ?ids then Some (int (remaining tasks (topo_order ?st) k)) else None)"
      using m by (simp add: initial_state_def rem0)
    show "\<forall>k\<in>?ids. (k \<in> set (topo_order ?st @ queue ?st)) =
        (remaining tasks (topo_order ?st) k = 0)"
    proof
      fix k assume k: "k \<in> ?ids"
      have "k \<in> set (queue ?st) \<longleftrightarrow> remaining tasks [] k = 0"
        using m k by (simp add: qmem rem0)
      then show "(k \<in> set (topo_order ?st @ queue ?st)) = (remaining tasks (topo_order ?st) k = 0)"
        by (simp add: initial_state_def)
    qed
    show "\<forall>k\<in>?ids. map_of (earliest ?st) k \<noteq> None \<and> map_of (pred ?st) k \<noteq> None"
      by (simp add: initial_state_def dict_comp_const)
    show "\<forall>k p. map_of (pred ?st) k = Some (Some p) \<longrightarrow>
        p \<in> set (topo_order ?st) \<and> (p, k) \<in> set (edge_list tasks)"
      by (simp add: initial_state_def dict_comp_const)
    show "\<forall>s k. (s, k) \<in> set (edge_list tasks) \<and> k \<in> set (topo_order ?st) \<longrightarrow>
        s \<in> set (topo_order ?st) \<and> index_of (topo_order ?st) s < index_of (topo_order ?st) k"
      by (simp add: initial_state_def)
  qed
qed

text \<open>What the first two phases of \<^verbatim>\<open>get_critical_path\<close> establish for every input.\<close>

lemma kahn_phase:
  "\<exists>g st. build_graph (dict_comp (\<lambda>t. t) tasks) tasks = Inr g
     \<and> kahn_loop (dict_comp (\<lambda>t. t) tasks) (snd g) (initial_state tasks (fst g)) = Inr st
     \<and> kahn_inv tasks st \<and> queue st = []"
proof -
  from build_graph_result [of tasks] obtain g where
    g: "build_graph (dict_comp (\<lambda>t. t) tasks) tasks = Inr g" "distinct (map fst (fst g))"
      "\<forall>k. map_of (fst g) k =
           (if k \<in> t_id ` set tasks
            then Some (int (length (filter (\<lambda>e. snd e = k) (edge_list tasks)))) else None)"
      "\<forall>d. getitem_default (snd g) d = map snd (filter (\<lambda>e. fst e = d) (edge_list tasks))"
    by blast
  from kahn_loop_inv [OF initial_state_inv [OF g(2) g(3)] g(4) refl]
  show ?thesis using g(1) by blast
qed

lemma topo_length_le:
  assumes "kahn_inv tasks st"
  shows "length (topo_order st) \<le> card (t_id ` set tasks)"
    and "card (t_id ` set tasks) \<le> length tasks"
proof -
  from kahn_inv_distinct [OF assms] kahn_inv_ids [OF assms]
  have "distinct (topo_order st)" "set (topo_order st) \<subseteq> t_id ` set tasks" by simp_all
  then show "length (topo_order st) \<le> card (t_id ` set tasks)"
    by (metis List.finite_set card_mono distinct_card finite_imageI)
  show "card (t_id ` set tasks) \<le> length tasks"
    by (metis card_image_le card_length le_trans List.finite_set)
qed

lemma topo_complete:
  assumes inv: "kahn_inv tasks st" and len: "length (topo_order st) = length tasks"
  shows "set (topo_order st) = t_id ` set tasks" and "distinct (map t_id tasks)"
proof -
  from kahn_inv_distinct [OF inv] kahn_inv_ids [OF inv]
  have d: "distinct (topo_order st)" and sub: "set (topo_order st) \<subseteq> t_id ` set tasks"
    by simp_all
  from topo_length_le [OF inv] len
  have c: "card (t_id ` set tasks) = length tasks" "card (set (topo_order st)) = card (t_id ` set tasks)"
    using d by (simp_all add: distinct_card)
  from c(2) sub show "set (topo_order st) = t_id ` set tasks"
    by (simp add: card_subset_eq)
  from c(1) show "distinct (map t_id tasks)"
    by (simp add: card_distinct)
qed

section \<open>Selecting the path\<close>

lemma map_err_result:
  assumes "\<forall>x\<in>set xs. \<exists>y. f x = Inr y"
  shows "\<exists>ys. map_err f xs = Inr ys \<and> list_all2 (\<lambda>x y. f x = Inr y) xs ys"
  using assms
proof (induction xs)
  case Nil
  then show ?case by simp
next
  case (Cons x xs)
  then obtain y ys where "f x = Inr y" "map_err f xs = Inr ys"
    "list_all2 (\<lambda>x y. f x = Inr y) xs ys" by auto
  then show ?case by simp
qed

lemma max_key_mem: "max_key best xs \<in> set (best # xs)"
  by (induction xs arbitrary: best) auto

lemma max_key_ge: "\<forall>x\<in>set (best # xs). snd x \<le> snd (max_key best xs)"
proof (induction xs arbitrary: best)
  case Nil
  then show ?case by simp
next
  case (Cons y ys)
  let ?b = "if snd best < snd y then y else best"
  from Cons.IH [of ?b] have ih: "\<forall>x\<in>set (?b # ys). snd x \<le> snd (max_key ?b ys)" .
  then have "snd ?b \<le> snd (max_key ?b ys)" by simp
  then have "snd best \<le> snd (max_key ?b ys)" "snd y \<le> snd (max_key ?b ys)"
    by (auto split: if_splits)
  with ih show ?case by auto
qed

lemma py_max_result:
  assumes "kvs \<noteq> []"
  shows "\<exists>kv. py_max kvs = Inr (fst kv) \<and> kv \<in> set kvs \<and> (\<forall>x\<in>set kvs. snd x \<le> snd kv)"
proof (cases kvs)
  case Nil
  with assms show ?thesis by simp
next
  case (Cons kv rest)
  let ?m = "max_key kv rest"
  have "py_max kvs = Inr (fst ?m)" by (simp add: py_max_def Cons)
  moreover have "?m \<in> set kvs" using max_key_mem [of kv rest] by (simp add: Cons)
  moreover have "\<forall>x\<in>set kvs. snd x \<le> snd ?m" using max_key_ge [of kv rest] by (simp add: Cons)
  ultimately show ?thesis by blast
qed

lemma trace_back_result:
  assumes inv: "kahn_inv tasks st" and full: "set (topo_order st) = t_id ` set tasks"
    and k: "k \<in> t_id ` set tasks"
  shows "\<exists>tr. trace_back (pred st) (Some k) path = Some (Inr (path @ tr))
     \<and> hd tr = k \<and> is_trace (map_of (pred st)) tr \<and> set tr \<subseteq> t_id ` set tasks"
  using k
proof (induction "index_of (topo_order st) k" arbitrary: k path rule: less_induct)
  case less
  from kahn_inv_dom [OF inv less.prems] obtain p where p: "map_of (pred st) k = Some p"
    by auto
  show ?case
  proof (cases p)
    case None
    with p have "trace_back (pred st) (Some k) path = Some (Inr (path @ [k]))"
      by (simp add: trace_back.simps [of _ "Some k"] trace_back.simps [of _ None] getitem_def)
    with p None less.prems show ?thesis
      by (intro exI [of _ "[k]"]) simp
  next
    case (Some q)
    with p kahn_inv_pred [OF inv, of k q] have q: "q \<in> set (topo_order st)"
      "(q, k) \<in> set (edge_list tasks)" by simp_all
    from less.prems full have "k \<in> set (topo_order st)" by simp
    from kahn_inv_topo [OF inv q(2) this]
    have lt: "index_of (topo_order st) q < index_of (topo_order st) k" by simp
    from q(1) full have qid: "q \<in> t_id ` set tasks" by simp
    from less.hyps [OF lt qid, of "path @ [k]"] obtain tr where
      tr: "trace_back (pred st) (Some q) (path @ [k]) = Some (Inr ((path @ [k]) @ tr))"
        "hd tr = q" "is_trace (map_of (pred st)) tr" "set tr \<subseteq> t_id ` set tasks"
      by blast
    from tr(3) have ne: "tr \<noteq> []" by auto
    have "trace_back (pred st) (Some k) path = Some (Inr (path @ k # tr))"
      using p Some tr(1) by (simp add: trace_back.simps [of _ "Some k"] getitem_def)
    moreover have "is_trace (map_of (pred st)) (k # tr)"
      using tr(2,3) ne p Some by (cases tr) simp_all
    ultimately show ?thesis
      using tr(4) less.prems by (intro exI [of _ "k # tr"]) simp
  qed
qed


lemma finish_key_result:
  assumes "kahn_inv tasks st" and "k \<in> t_id ` set tasks"
  shows "\<exists>e t. map_of (earliest st) k = Some e \<and> map_of (dict_comp (\<lambda>t. t) tasks) k = Some t
     \<and> finish_key (dict_comp (\<lambda>t. t) tasks) (earliest st) k = Inr (e + story_points t)"
proof -
  from kahn_inv_dom [OF assms] obtain e where e: "map_of (earliest st) k = Some e" by auto
  from assms(2) obtain t where t: "map_of (dict_comp (\<lambda>t. t) tasks) k = Some t"
    using dict_comp_dom [of "\<lambda>t. t" tasks] by auto
  from e t show ?thesis by (simp add: finish_key_def getitem_def)
qed

lemma select_path_result:
  assumes inv: "kahn_inv tasks st" and len: "length (topo_order st) = length tasks"
    and ne: "tasks \<noteq> []"
  shows "\<exists>end_id fe tr ts.
       select_path (dict_comp (\<lambda>t. t) tasks) st = Some (Inr ts)
     \<and> end_id \<in> t_id ` set tasks
     \<and> finish_key (dict_comp (\<lambda>t. t) tasks) (earliest st) end_id = Inr fe
     \<and> (\<forall>k\<in>t_id ` set tasks. \<forall>f.
           finish_key (dict_comp (\<lambda>t. t) tasks) (earliest st) k = Inr f \<longrightarrow> f \<le> fe)
     \<and> hd tr = end_id \<and> is_trace (map_of (pred st)) tr \<and> set tr \<subseteq> t_id ` set tasks
     \<and> list_all2 (\<lambda>k t. map_of (dict_comp (\<lambda>t. t) tasks) k = Some t) (rev tr) ts"
proof -
  let ?by_id = "dict_comp (\<lambda>t. t) tasks" and ?T = "topo_order st" and ?ids = "t_id ` set tasks"
  let ?fk = "finish_key ?by_id (earliest st)"
  from topo_complete [OF inv len] have full: "set ?T = ?ids" by simp
  have "\<forall>k\<in>set ?T. \<exists>y. ?fk k = Inr y"
    using finish_key_result [OF inv] full by blast
  from map_err_result [OF this] obtain keys where
    keys: "map_err ?fk ?T = Inr keys" "list_all2 (\<lambda>x y. ?fk x = Inr y) ?T keys"
    by blast
  from keys(2) have lk: "length keys = length ?T" by (simp add: list_all2_lengthD)
  have zk: "?fk k = Inr f" if "(k, f) \<in> set (zip ?T keys)" for k f
    using keys(2) that by (auto simp: list_all2_conv_all_nth in_set_conv_nth)
  from len ne lk have "zip ?T keys \<noteq> []" by (cases ?T; cases keys) auto
  from py_max_result [OF this] obtain kv where
    kv: "py_max (zip ?T keys) = Inr (fst kv)" "kv \<in> set (zip ?T keys)"
      "\<forall>x\<in>set (zip ?T keys). snd x \<le> snd kv"
    by blast
  obtain end_id fe where [simp]: "kv = (end_id, fe)" by (cases kv)
  from kv(2) have e1: "end_id \<in> ?ids" using full by (auto dest: set_zip_leftD)
  from kv(2) have e2: "?fk end_id = Inr fe" by (simp add: zk)
  have e3: "f \<le> fe" if "k \<in> ?ids" "?fk k = Inr f" for k f
  proof -
    from that(1) full have "k \<in> set ?T" by simp
    then obtain i where i: "i < length ?T" "?T ! i = k"
      by (auto simp: in_set_conv_nth)
    with lk have "(k, keys ! i) \<in> set (zip ?T keys)"
      by (auto simp: in_set_zip)
    moreover from this have "?fk k = Inr (keys ! i)" by (rule zk)
    ultimately show ?thesis using kv(3) that(2) by fastforce
  qed
  from trace_back_result [OF inv full e1, of "[]"] obtain tr where
    tr: "trace_back (pred st) (Some end_id) [] = Some (Inr tr)" "hd tr = end_id"
      "is_trace (map_of (pred st)) tr" "set tr \<subseteq> ?ids"
    by auto
  have "\<forall>k\<in>set (rev tr). \<exists>t. getitem ?by_id k = Inr t"
    using tr(4) dict_comp_dom [of "\<lambda>t. t" tasks] by (auto simp: getitem_def split: option.splits)
  from map_err_result [OF this] obtain ts where
    ts: "map_err (getitem ?by_id) (rev tr) = Inr ts"
      "list_all2 (\<lambda>k t. getitem ?by_id k = Inr t) (rev tr) ts"
    by blast
  from ts(2) have "list_all2 (\<lambda>k t. map_of ?by_id k = Some t) (rev tr) ts"
    by (simp add: getitem_Inr)
  moreover have "select_path ?by_id st = Some (Inr ts)"
    using keys(1) kv(1) tr(1) ts(1) by (simp add: select_path_def)
  ultimately show ?thesis using e1 e2 e3 tr(2,3,4) by blast
qed

text \<open>On every input the function returns a result: no exception, no endless loop.\<close>

lemma critical_path_returns: "\<exists>r. critical_path tasks = Some (Inr r)"
proof (cases "tasks = []")
  case True
  then show ?thesis by (simp add: critical_path_def)
next
  case False
  from kahn_phase [of tasks] obtain g st where
    g: "build_graph (dict_comp (\<lambda>t. t) tasks) tasks = Inr g"
      "kahn_loop (dict_comp (\<lambda>t. t) tasks) (snd g) (initial_state tasks (fst g)) = Inr st"
      "kahn_inv tasks st" "queue st = []"
    by blast
  show ?thesis
  proof (cases "length (topo_order st) = length tasks")
    case True
    from select_path_result [OF g(3) True False] obtain ts where
      "select_path (dict_comp (\<lambda>t. t) tasks) st = Some (Inr ts)" by blast
    with False g(1,2) True show ?thesis by (simp add: critical_path_def)
  next
    case neq: False
    with False g(1,2) show ?thesis by (simp add: critical_path_def)
  qed
qed

section \<open>Cycles\<close>

lemma topo_full_acyclic:
  assumes inv: "kahn_inv tasks st" and full: "set (topo_order st) = t_id ` set tasks"
  shows "acyclic (dep_edges tasks)"
proof -
  have "index_of (topo_order st) b < index_of (topo_order st) a"
    if "(a, b) \<in> (dep_edges tasks)\<inverse>" for a b
  proof -
    from that have e: "(b, a) \<in> set (edge_list tasks)" by (simp add: set_edge_list)
    then have "a \<in> set (topo_order st)" using edge_list_ids full by blast
    from kahn_inv_topo [OF inv e this] show ?thesis by simp
  qed
  then have "acyclic ((dep_edges tasks)\<inverse>)" by (rule acyclicI_order)
  then show ?thesis by simp
qed

lemma acyclic_topo_full:
  assumes inv: "kahn_inv tasks st" and q: "queue st = []"
    and ac: "acyclic (dep_edges tasks)"
  shows "set (topo_order st) = t_id ` set tasks"
proof (rule ccontr)
  assume neq: "set (topo_order st) \<noteq> t_id ` set tasks"
  let ?Q = "t_id ` set tasks - set (topo_order st)"
  from kahn_inv_ids [OF inv] neq obtain x where "x \<in> ?Q" by auto
  have "finite (dep_edges tasks)"
    by (simp add: set_edge_list [symmetric])
  then have "wf (dep_edges tasks)" using ac by (rule finite_acyclic_wf)
  from wfE_min [OF this \<open>x \<in> ?Q\<close>] obtain z where
    z: "z \<in> ?Q" "\<And>y. (y, z) \<in> dep_edges tasks \<Longrightarrow> y \<notin> ?Q" by blast
  have "s \<in> set (topo_order st)" if "(s, z) \<in> set (edge_list tasks)" for s
    using z(2) [of s] that edge_list_ids [OF that] by (simp add: set_edge_list)
  then have "remaining tasks (topo_order st) z = 0"
    by (auto simp: remaining_def filter_empty_conv)
  with kahn_inv_zero [OF inv, of z] z(1) q show False by simp
qed

lemma critical_path_cyclic:
  assumes "\<not> acyclic (dep_edges tasks)"
  shows "critical_path tasks = Some (Inr (sort_key priority tasks))"
proof -
  from assms have ne: "tasks \<noteq> []"
    by (auto simp: dep_edges_def acyclic_def)
  from kahn_phase [of tasks] obtain g st where
    g: "build_graph (dict_comp (\<lambda>t. t) tasks) tasks = Inr g"
      "kahn_loop (dict_comp (\<lambda>t. t) tasks) (snd g) (initial_state tasks (fst g)) = Inr st"
      "kahn_inv tasks st" "queue st = []"
    by blast
  have "length (topo_order st) \<noteq> length tasks"
  proof
    assume "length (topo_order st) = length tasks"
    from topo_full_acyclic [OF g(3) topo_complete(1) [OF g(3) this]] assms show False by simp
  qed
  with ne g(1,2) show ?thesis by (simp add: critical_path_def)
qed

lemma self_dependency_cyclic:
  assumes "t \<in> set tasks" "t_id t \<in> set (dependencies t)"
  shows "\<not> acyclic (dep_edges tasks)"
proof -
  from assms have "(t_id t, t_id t) \<in> dep_edges tasks"
    by (auto simp: dep_edges_def)
  then show ?thesis by (auto simp: acyclic_def)
qed

lemmas store_defs = apply_ops_def add_task_def sqlite_integer_def empty_store_def ex_done_task_def ex_todo_task_def
  mk_task_def get_project_tasks_def task_row.defs task.defs row_to_task_def order_key_def
  insert_dependency_def select_depends_on_def

lemma ex_self_tasks:
  "get_project_tasks ex_self_store ''p'' = [mk_task ''t2'' 1 1 [], mk_task ''t1'' 2 3 [''t1'']]"
  by (simp add: ex_self_store_def store_defs)

text \<open>
  C3: \<^verbatim>\<open>get_critical_path\<close> returns on every store and project: the loop
  \<^verbatim>\<open>while queue\<close> is a total function (its termination is proved with the measure
  \<open>pending\<close>), the walk along the predecessors ends, and no lookup raises. A task that
  lists itself as a dependency makes the run take the cycle fallback.
\<close>

theorem C3_get_critical_path_terminates:
  "(\<exists>r. get_critical_path s pid = Some (Inr r))
   \<and> (\<forall>t\<in>set (get_project_tasks s pid). t_id t \<in> set (dependencies t) \<longrightarrow>
         get_critical_path s pid = Some (Inr (sort_key priority (get_project_tasks s pid))))"
  using critical_path_returns [of "get_project_tasks s pid"]
    critical_path_cyclic [of "get_project_tasks s pid"] self_dependency_cyclic
  unfolding get_critical_path_def by blast

theorem C3_get_critical_path_terminates_witness:
  "mk_task ''t1'' 2 3 [''t1''] \<in> set (get_project_tasks ex_self_store ''p'')
   \<and> t_id (mk_task ''t1'' 2 3 [''t1'']) \<in> set (dependencies (mk_task ''t1'' 2 3 [''t1'']))
   \<and> get_critical_path ex_self_store ''p'' =
       Some (Inr [mk_task ''t2'' 1 1 [], mk_task ''t1'' 2 3 [''t1'']])"
  using C3_get_critical_path_terminates [of ex_self_store "''p''"]
  by (simp add: ex_self_tasks) (simp add: mk_task_def)

section \<open>The cycle fallback\<close>

lemma ex_cycle_tasks:
  "get_project_tasks ex_cycle_store ''p'' =
     [mk_task ''t2'' 1 1 [''t1''], mk_task ''t1'' 2 1 [''t2'']]"
  by (simp add: ex_cycle_store_def add_dependency_def store_defs)

lemma ex_cycle_cyclic: "\<not> acyclic (dep_edges (get_project_tasks ex_cycle_store ''p''))"
proof -
  let ?E = "dep_edges (get_project_tasks ex_cycle_store ''p'')"
  have "edge_list (get_project_tasks ex_cycle_store ''p'') = [(''t1'', ''t2''), (''t2'', ''t1'')]"
    by (simp add: ex_cycle_tasks edge_list_def mk_task_def)
  then have "(''t1'', ''t2'') \<in> ?E" "(''t2'', ''t1'') \<in> ?E"
    by (simp_all add: set_edge_list [symmetric])
  then have "(''t1'', ''t1'') \<in> ?E\<^sup>+" by (rule trancl_into_trancl2 [OF _ r_into_trancl])
  then show ?thesis unfolding acyclic_def by blast
qed

text \<open>
  C2: when the dependency edges among the input tasks contain a cycle,
  \<^verbatim>\<open>get_critical_path\<close> raises nothing and returns the input tasks, each once, sorted by
  priority ascending, tasks of equal priority in their input order. The three properties
  fix the result from the priorities and the input order alone, so the dependencies play
  no part in it.
\<close>

theorem C2_cycle_fallback:
  assumes "\<not> acyclic (dep_edges (get_project_tasks s pid))"
  shows "\<exists>r. get_critical_path s pid = Some (Inr r)
     \<and> mset r = mset (get_project_tasks s pid)
     \<and> sorted (map priority r)
     \<and> (\<forall>p. filter (\<lambda>t. priority t = p) r =
              filter (\<lambda>t. priority t = p) (get_project_tasks s pid))"
proof -
  let ?tasks = "get_project_tasks s pid"
  have "get_critical_path s pid = Some (Inr (sort_key priority ?tasks))"
    unfolding get_critical_path_def using assms by (rule critical_path_cyclic)
  moreover have "mset (sort_key priority ?tasks) = mset ?tasks" by simp
  moreover have "sorted (map priority (sort_key priority ?tasks))" by simp
  moreover have "filter (\<lambda>t. priority t = p) (sort_key priority ?tasks) =
      filter (\<lambda>t. priority t = p) ?tasks" for p
    by (rule sort_key_stable)
  ultimately show ?thesis by blast
qed

theorem C2_cycle_fallback_witness:
  "\<not> acyclic (dep_edges (get_project_tasks ex_cycle_store ''p''))
   \<and> get_critical_path ex_cycle_store ''p'' =
       Some (Inr [mk_task ''t2'' 1 1 [''t1''], mk_task ''t1'' 2 1 [''t2'']])
   \<and> (\<exists>r. get_critical_path ex_cycle_store ''p'' = Some (Inr r)
        \<and> mset r = mset (get_project_tasks ex_cycle_store ''p'')
        \<and> sorted (map priority r))"
proof -
  have "get_critical_path ex_cycle_store ''p'' =
       Some (Inr [mk_task ''t2'' 1 1 [''t1''], mk_task ''t1'' 2 1 [''t2'']])"
    using critical_path_cyclic [OF ex_cycle_cyclic]
    by (simp add: get_critical_path_def ex_cycle_tasks) (simp add: mk_task_def)
  with C2_cycle_fallback [OF ex_cycle_cyclic] ex_cycle_cyclic show ?thesis by blast
qed

section \<open>The longest-path labels\<close>

lemma earliest_inv_nonneg:
  "earliest_inv tasks st \<Longrightarrow> map_of (earliest st) k = Some e \<Longrightarrow> 0 \<le> e"
  unfolding earliest_inv_def by (elim conjE) fast

lemma earliest_inv_edge:
  "earliest_inv tasks st \<Longrightarrow> (s, k) \<in> set (edge_list tasks) \<Longrightarrow> s \<in> set (topo_order st) \<Longrightarrow>
     map_of (earliest st) s = Some es \<Longrightarrow> map_of (dict_comp (\<lambda>t. t) tasks) s = Some ts \<Longrightarrow>
     map_of (earliest st) k = Some ek \<Longrightarrow> es + story_points ts \<le> ek"
  unfolding earliest_inv_def by (elim conjE) fast

lemma earliest_inv_none:
  "earliest_inv tasks st \<Longrightarrow> map_of (pred st) k = Some None \<Longrightarrow>
     map_of (earliest st) k = Some 0"
  unfolding earliest_inv_def by (elim conjE) fast

lemma earliest_inv_some:
  "earliest_inv tasks st \<Longrightarrow> map_of (pred st) k = Some (Some p) \<Longrightarrow>
     \<exists>ep tp. map_of (earliest st) p = Some ep
        \<and> map_of (dict_comp (\<lambda>t. t) tasks) p = Some tp
        \<and> map_of (earliest st) k = Some (ep + story_points tp)"
  unfolding earliest_inv_def by (elim conjE) fast

lemma process_earliest_inv:
  assumes inv: "kahn_inv tasks st" and einv: "earliest_inv tasks st"
    and q: "queue st = tid # rest"
    and ch: "\<forall>d. getitem_default children d = map snd (filter (\<lambda>e. fst e = d) (edge_list tasks))"
    and pr: "process (dict_comp (\<lambda>t. t) tasks) children tid
           (st\<lparr>queue := rest, topo_order := topo_order st @ [tid]\<rparr>) = Inr st'"
  shows "earliest_inv tasks st'"
proof -
  let ?E = "edge_list tasks" and ?T = "topo_order st" and ?ids = "t_id ` set tasks"
  let ?by_id = "dict_comp (\<lambda>t. t) tasks"
  from process_result [OF inv q ch] obtain st'' newq and task :: task and et where
    task: "map_of ?by_id tid = Some task" and et: "map_of (earliest st) tid = Some et"
    and pr'': "process ?by_id children tid
           (st\<lparr>queue := rest, topo_order := ?T @ [tid]\<rparr>) = Inr st''"
    and topo'': "topo_order st'' = ?T @ [tid]"
    and earl'': "\<forall>k. map_of (earliest st'') k =
           (if (tid, k) \<in> set ?E
            then map_option (max (et + story_points task)) (map_of (earliest st) k)
            else map_of (earliest st) k)"
    and pred'': "\<forall>k. map_of (pred st'') k =
           (if (tid, k) \<in> set ?E
               \<and> (\<exists>e. map_of (earliest st) k = Some e \<and> e < et + story_points task)
            then Some (Some tid) else map_of (pred st) k)"
    by blast
  from pr pr'' have "st'' = st'" by simp
  note topo' = topo'' [unfolded this] and earl' = earl'' [unfolded this]
    and pred' = pred'' [unfolded this]
  let ?fin = "et + story_points task"
  from kahn_inv_distinct [OF inv] q have tid_new: "tid \<notin> set ?T" by auto
  have frozen: "(tid, s) \<notin> set ?E" if "s \<in> set (?T @ [tid])" for s
  proof
    assume e: "(tid, s) \<in> set ?E"
    from that q have mem: "s \<in> set (?T @ queue st)" by auto
    from edge_list_ids [OF e] have sid: "s \<in> ?ids" by simp
    from kahn_inv_zero [OF inv sid] mem have "remaining tasks ?T s = 0" by simp
    from remaining_0_sources [OF this e] tid_new show False by simp
  qed
  have same: "map_of (earliest st') s = map_of (earliest st) s" if "s \<in> set (?T @ [tid])" for s
    using frozen [OF that] earl' by simp
  have grow: "\<exists>e0. map_of (earliest st) k = Some e0 \<and> e0 \<le> ek
                \<and> ((tid, k) \<in> set ?E \<longrightarrow> ek = max ?fin e0)
                \<and> ((tid, k) \<notin> set ?E \<longrightarrow> ek = e0)"
    if "map_of (earliest st') k = Some ek" for k ek
    using that earl' by (cases "map_of (earliest st) k") (auto split: if_splits)
  have c1: "0 \<le> e" if "map_of (earliest st') k = Some e" for k e
  proof -
    from grow [OF that] obtain e0 where "map_of (earliest st) k = Some e0" "e0 \<le> e" by blast
    with earliest_inv_nonneg [OF einv] show ?thesis by fastforce
  qed
  have c2: "es + story_points ts \<le> ek"
    if e: "(s, k) \<in> set ?E" and s: "s \<in> set (topo_order st')"
      and es: "map_of (earliest st') s = Some es" and ts: "map_of ?by_id s = Some ts"
      and ek: "map_of (earliest st') k = Some ek" for s k es ts ek
  proof -
    from s have s': "s \<in> set (?T @ [tid])" by (simp add: topo')
    from es same [OF s'] have es0: "map_of (earliest st) s = Some es" by simp
    from grow [OF ek] obtain e0 where e0: "map_of (earliest st) k = Some e0" "e0 \<le> ek"
      "(tid, k) \<in> set ?E \<longrightarrow> ek = max ?fin e0" by blast
    show ?thesis
    proof (cases "s = tid")
      case True
      with es0 et ts task e e0(3) show ?thesis by simp
    next
      case False
      with s' have "s \<in> set ?T" by simp
      from earliest_inv_edge [OF einv e this es0 ts e0(1)] e0(2) show ?thesis by simp
    qed
  qed
  have c3: "map_of (earliest st') k = Some 0" if "map_of (pred st') k = Some None" for k
  proof -
    from that pred' have p0: "map_of (pred st) k = Some None"
      and no: "\<not> ((tid, k) \<in> set ?E \<and> (\<exists>e. map_of (earliest st) k = Some e \<and> e < ?fin))"
      by (auto split: if_splits)
    from earliest_inv_none [OF einv p0] have "map_of (earliest st) k = Some 0" .
    with no earl' show ?thesis by (auto simp: max_def)
  qed
  have c4: "\<exists>ep tp. map_of (earliest st') p = Some ep \<and> map_of ?by_id p = Some tp
        \<and> map_of (earliest st') k = Some (ep + story_points tp)"
    if pk: "map_of (pred st') k = Some (Some p)" for k p
  proof (cases "(tid, k) \<in> set ?E \<and> (\<exists>e. map_of (earliest st) k = Some e \<and> e < ?fin)")
    case True
    with pk pred' have [simp]: "p = tid" by simp
    from True obtain e where "map_of (earliest st) k = Some e" "e < ?fin" by blast
    with True earl' have "map_of (earliest st') k = Some ?fin" by (simp add: max_def)
    moreover have "map_of (earliest st') tid = Some et" using same [of tid] et by simp
    ultimately show ?thesis using task by simp
  next
    case False
    with pk pred' have p0: "map_of (pred st) k = Some (Some p)" by simp
    from earliest_inv_some [OF einv p0] obtain ep tp where
      o: "map_of (earliest st) p = Some ep" "map_of ?by_id p = Some tp"
        "map_of (earliest st) k = Some (ep + story_points tp)" by blast
    from kahn_inv_pred [OF inv p0] have "p \<in> set (?T @ [tid])" by simp
    from same [OF this] o(1) have "map_of (earliest st') p = Some ep" by simp
    moreover have "map_of (earliest st') k = Some (ep + story_points tp)"
      using False o(3) earl' by (auto simp: max_def)
    ultimately show ?thesis using o(2) by blast
  qed
  show ?thesis
    unfolding earliest_inv_def
  proof (intro conjI)
    show "\<forall>k e. map_of (earliest st') k = Some e \<longrightarrow> 0 \<le> e"
      by (intro allI impI) (rule c1)
    show "\<forall>s k es ts ek. (s, k) \<in> set ?E \<and> s \<in> set (topo_order st')
         \<and> map_of (earliest st') s = Some es \<and> map_of ?by_id s = Some ts
         \<and> map_of (earliest st') k = Some ek \<longrightarrow> es + story_points ts \<le> ek"
      by (intro allI impI, elim conjE) (rule c2)
    show "\<forall>k. map_of (pred st') k = Some None \<longrightarrow> map_of (earliest st') k = Some 0"
      by (intro allI impI) (rule c3)
    show "\<forall>k p. map_of (pred st') k = Some (Some p) \<longrightarrow>
         (\<exists>ep tp. map_of (earliest st') p = Some ep \<and> map_of ?by_id p = Some tp
            \<and> map_of (earliest st') k = Some (ep + story_points tp))"
      by (intro allI impI) (rule c4)
  qed
qed

lemma kahn_loop_earliest_inv:
  assumes "kahn_inv tasks st" and "earliest_inv tasks st"
    and "\<forall>d. getitem_default children d = map snd (filter (\<lambda>e. fst e = d) (edge_list tasks))"
    and "by_id = dict_comp (\<lambda>t. t) tasks"
    and "kahn_loop by_id children st = Inr st'"
  shows "earliest_inv tasks st'"
  using assms
proof (induction by_id children st rule: kahn_loop.induct)
  case (1 by_id children st)
  show ?case
  proof (cases "queue st")
    case Nil
    with "1.prems"(2,5) show ?thesis by (simp add: kahn_loop.simps [of by_id children st])
  next
    case (Cons tid rest)
    from process_inv [OF "1.prems"(1) Cons "1.prems"(3)] obtain st1 where
      st1: "process by_id children tid (st\<lparr>queue := rest, topo_order := topo_order st @ [tid]\<rparr>)
              = Inr st1" "kahn_inv tasks st1"
      using "1.prems"(4) by blast
    have e1: "earliest_inv tasks st1"
      using process_earliest_inv [OF "1.prems"(1,2) Cons "1.prems"(3)] st1(1) "1.prems"(4)
      by blast
    have "kahn_loop by_id children st1 = Inr st'"
      using "1.prems"(5) Cons st1(1) by (simp add: kahn_loop.simps [of by_id children st])
    from "1.IH" [OF Cons st1(1) st1(2) e1 "1.prems"(3,4) this] show ?thesis .
  qed
qed

lemma initial_state_earliest_inv: "earliest_inv tasks (initial_state tasks in_deg1)"
  unfolding earliest_inv_def
  by (simp add: initial_state_def dict_comp_const)

section \<open>The labels at the end of the loop\<close>

lemma final_okD:
  assumes "final_ok tasks st"
  shows "kahn_inv tasks st" "earliest_inv tasks st" "set (topo_order st) = t_id ` set tasks"
    "distinct (map t_id tasks)" "\<And>t. t \<in> set tasks \<Longrightarrow> 0 < story_points t"
  using assms unfolding final_ok_def by simp_all

lemma final_by_id:
  assumes "final_ok tasks st" "t \<in> set tasks"
  shows "map_of (dict_comp (\<lambda>t. t) tasks) (t_id t) = Some t"
  using dict_comp_distinct_ids [OF final_okD(4) [OF assms(1)] assms(2)] .

lemma final_by_id_unique:
  assumes "final_ok tasks st" "map_of (dict_comp (\<lambda>t. t) tasks) k = Some t"
  shows "t \<in> set tasks \<and> t_id t = k"
  using dict_comp_Some [OF assms(2)] by auto

lemma final_same_id:
  assumes "final_ok tasks st" "a \<in> set tasks" "b \<in> set tasks" "t_id a = t_id b"
  shows "a = b"
  using final_okD(4) [OF assms(1)] assms(2-4) by (auto simp: distinct_map inj_on_def)

lemma final_label:
  assumes "final_ok tasks st" "t \<in> set tasks"
  shows "map_of (earliest st) (t_id t) = Some (label st (t_id t))"
proof -
  from assms(2) have "t_id t \<in> t_id ` set tasks" by simp
  from kahn_inv_dom [OF final_okD(1) [OF assms(1)] this] show ?thesis
    by (auto simp: label_def)
qed

lemma final_label_nonneg:
  assumes "final_ok tasks st" "t \<in> set tasks"
  shows "0 \<le> label st (t_id t)"
  using earliest_inv_nonneg [OF final_okD(2) [OF assms(1)] final_label [OF assms]] .

lemma final_edge:
  assumes ok: "final_ok tasks st" and a: "a \<in> set tasks" and b: "b \<in> set tasks"
    and d: "t_id a \<in> set (dependencies b)"
  shows "label st (t_id a) + story_points a \<le> label st (t_id b)"
proof -
  from a b d have e: "(t_id a, t_id b) \<in> set (edge_list tasks)"
    by (auto simp: set_edge_list dep_edges_def)
  from a final_okD(3) [OF ok] have "t_id a \<in> set (topo_order st)" by simp
  from earliest_inv_edge [OF final_okD(2) [OF ok] e this final_label [OF ok a]
      final_by_id [OF ok a] final_label [OF ok b]]
  show ?thesis .
qed

lemma final_pred_none:
  assumes ok: "final_ok tasks st" and t: "t \<in> set tasks"
    and p: "map_of (pred st) (t_id t) = Some None"
  shows "label st (t_id t) = 0"
  using earliest_inv_none [OF final_okD(2) [OF ok] p] by (simp add: label_def)

lemma final_pred_some:
  assumes ok: "final_ok tasks st" and t: "t \<in> set tasks"
    and p: "map_of (pred st) (t_id t) = Some (Some q)"
  shows "\<exists>a\<in>set tasks. t_id a = q \<and> q \<in> set (dependencies t)
           \<and> label st (t_id t) = label st q + story_points a"
proof -
  from earliest_inv_some [OF final_okD(2) [OF ok] p] obtain ep and tp :: task where
    o: "map_of (earliest st) q = Some ep" "map_of (dict_comp (\<lambda>t. t) tasks) q = Some tp"
      "map_of (earliest st) (t_id t) = Some (ep + story_points tp)" by blast
  from final_by_id_unique [OF ok o(2)] have tp: "tp \<in> set tasks" "t_id tp = q" by simp_all
  from kahn_inv_pred [OF final_okD(1) [OF ok] p]
  have "(q, t_id t) \<in> dep_edges tasks" by (simp add: set_edge_list)
  then obtain t' where t': "t' \<in> set tasks" "t_id t' = t_id t" "q \<in> set (dependencies t')"
    by (auto simp: dep_edges_def)
  from final_same_id [OF ok t'(1) t t'(2)] t'(3) have "q \<in> set (dependencies t)" by simp
  moreover from o(1,3) have "label st (t_id t) = label st q + story_points tp"
    by (simp add: label_def)
  ultimately show ?thesis using tp by blast
qed


section \<open>Dependency chains\<close>

lemma dep_chain_ne: "dep_chain tasks c \<Longrightarrow> c \<noteq> []"
  by auto

lemma dep_chain_set: "dep_chain tasks c \<Longrightarrow> set c \<subseteq> set tasks"
  by (induction tasks c rule: dep_chain.induct) auto

lemma dep_chain_snoc:
  "dep_chain tasks c \<Longrightarrow> t \<in> set tasks \<Longrightarrow> t_id (last c) \<in> set (dependencies t) \<Longrightarrow>
     dep_chain tasks (c @ [t])"
  by (induction tasks c rule: dep_chain.induct) auto

lemma chain_weight_Cons [simp]: "chain_weight (t # c) = story_points t + chain_weight c"
  by (simp add: chain_weight_def)

lemma chain_weight_snoc [simp]: "chain_weight (c @ [t]) = chain_weight c + story_points t"
  by (simp add: chain_weight_def)

lemma chain_bound:
  assumes ok: "final_ok tasks st"
  shows "dep_chain tasks c \<Longrightarrow>
     label st (t_id (hd c)) + chain_weight c \<le> label st (t_id (last c)) + story_points (last c)"
proof (induction c rule: induct_list012)
  case 1
  then show ?case by simp
next
  case (2 t)
  then show ?case by (simp add: chain_weight_def)
next
  case (3 a b r)
  from "3.prems" have a: "a \<in> set tasks" and d: "t_id a \<in> set (dependencies b)"
    and c: "dep_chain tasks (b # r)" by simp_all
  from dep_chain_set [OF c] have b: "b \<in> set tasks" by simp
  from final_edge [OF ok a b d] "3.IH"(2) [OF c] show ?case by simp
qed

lemma chain_weight_le:
  assumes ok: "final_ok tasks st" and c: "dep_chain tasks c"
  shows "chain_weight c \<le> label st (t_id (last c)) + story_points (last c)"
proof -
  from c have "hd c \<in> set tasks" using dep_chain_set [OF c] dep_chain_ne [OF c] by auto
  from final_label_nonneg [OF ok this] chain_bound [OF ok c] show ?thesis by simp
qed

lemma chain_index:
  assumes ok: "final_ok tasks st"
  shows "dep_chain tasks c \<Longrightarrow>
     sorted_wrt (<) (map (\<lambda>t. index_of (topo_order st) (t_id t)) c)"
proof (induction c rule: induct_list012)
  case 1
  then show ?case by simp
next
  case (2 t)
  then show ?case by simp
next
  case (3 a b r)
  from "3.prems" have a: "a \<in> set tasks" and d: "t_id a \<in> set (dependencies b)"
    and c: "dep_chain tasks (b # r)" by simp_all
  from dep_chain_set [OF c] have b: "b \<in> set tasks" by simp
  from a b d have e: "(t_id a, t_id b) \<in> set (edge_list tasks)"
    by (auto simp: set_edge_list dep_edges_def)
  from b final_okD(3) [OF ok] have "t_id b \<in> set (topo_order st)" by simp
  from kahn_inv_topo [OF final_okD(1) [OF ok] e this]
  have lt: "index_of (topo_order st) (t_id a) < index_of (topo_order st) (t_id b)" by simp
  from "3.IH"(2) [OF c] lt show ?case by (auto simp: less_trans)
qed

lemma chain_distinct:
  assumes ok: "final_ok tasks st" and c: "dep_chain tasks c"
  shows "distinct c" and "length c \<le> length tasks"
proof -
  from chain_index [OF ok c]
  have "distinct (map (\<lambda>t. index_of (topo_order st) (t_id t)) c)"
    by (simp add: strict_sorted_iff)
  then show d: "distinct c" by (simp add: distinct_map)
  have "length c = card (set c)" using d by (simp add: distinct_card)
  also have "\<dots> \<le> card (set tasks)" using dep_chain_set [OF c] by (simp add: card_mono)
  also have "\<dots> \<le> length tasks" by (rule card_length)
  finally show "length c \<le> length tasks" .
qed

lemma finite_chains:
  assumes ok: "final_ok tasks st"
  shows "finite {c. dep_chain tasks c}"
proof -
  have "{c. dep_chain tasks c} \<subseteq> {c. set c \<subseteq> set tasks \<and> length c \<le> length tasks}"
    using dep_chain_set chain_distinct(2) [OF ok] by auto
  moreover have "finite {c. set c \<subseteq> set tasks \<and> length c \<le> length tasks}"
    by (rule finite_lists_length_le) simp
  ultimately show ?thesis by (rule finite_subset)
qed

section \<open>The path that is returned\<close>

lemma trace_chain:
  assumes ok: "final_ok tasks st"
  shows "is_trace (map_of (pred st)) tr \<Longrightarrow>
     list_all2 (\<lambda>k t. map_of (dict_comp (\<lambda>t. t) tasks) k = Some t) (rev tr) ts \<Longrightarrow>
       dep_chain tasks ts
     \<and> map_of (dict_comp (\<lambda>t. t) tasks) (hd tr) = Some (last ts)
     \<and> chain_weight ts = label st (hd tr) + story_points (last ts)
     \<and> set (dependencies (hd ts)) \<inter> t_id ` set tasks = {}"
proof (induction tr arbitrary: ts rule: induct_list012)
  case 1
  then show ?case by simp
next
  case (2 x)
  let ?by_id = "dict_comp (\<lambda>t. t) tasks"
  from "2.prems"(2) obtain tx where ts: "ts = [tx]" and bx: "map_of ?by_id x = Some tx"
    by (auto simp: list_all2_Cons1)
  from final_by_id_unique [OF ok bx] have tx: "tx \<in> set tasks" "t_id tx = x" by simp_all
  from "2.prems"(1) have "map_of (pred st) (t_id tx) = Some None" by (simp add: tx)
  from final_pred_none [OF ok tx(1) this] have l0: "label st x = 0" by (simp add: tx)
  have "set (dependencies tx) \<inter> t_id ` set tasks = {}"
  proof (rule ccontr)
    assume "set (dependencies tx) \<inter> t_id ` set tasks \<noteq> {}"
    then obtain a where a: "a \<in> set tasks" "t_id a \<in> set (dependencies tx)" by auto
    from final_edge [OF ok a(1) tx(1) a(2)] final_label_nonneg [OF ok a(1)]
      final_okD(5) [OF ok a(1)] l0 tx(2)
    show False by simp
  qed
  with tx bx l0 show ?case by (simp add: ts chain_weight_def)
next
  case (3 x y r)
  let ?by_id = "dict_comp (\<lambda>t. t) tasks"
  from "3.prems"(2) obtain ts' tx where ts: "ts = ts' @ [tx]"
    and l': "list_all2 (\<lambda>k t. map_of ?by_id k = Some t) (rev (y # r)) ts'"
    and bx: "map_of ?by_id x = Some tx"
    by (auto simp: list_all2_append1 list_all2_Cons1)
  from "3.prems"(1) have px: "map_of (pred st) x = Some (Some y)"
    and tr': "is_trace (map_of (pred st)) (y # r)" by simp_all
  from "3.IH"(2) [OF tr' l'] have ih: "dep_chain tasks ts'"
    "map_of ?by_id y = Some (last ts')"
    "chain_weight ts' = label st y + story_points (last ts')"
    "set (dependencies (hd ts')) \<inter> t_id ` set tasks = {}" by simp_all
  from final_by_id_unique [OF ok bx] have tx: "tx \<in> set tasks" "t_id tx = x" by simp_all
  from final_by_id_unique [OF ok ih(2)] have ly: "last ts' \<in> set tasks" "t_id (last ts') = y"
    by simp_all
  from px have "map_of (pred st) (t_id tx) = Some (Some y)" by (simp add: tx)
  from final_pred_some [OF ok tx(1) this] obtain a where
    a: "a \<in> set tasks" "t_id a = y" "y \<in> set (dependencies tx)"
      "label st (t_id tx) = label st y + story_points a" by blast
  from final_same_id [OF ok a(1) ly(1)] a(2) ly(2) have [simp]: "a = last ts'" by simp
  from ly(2) a(3) have "t_id (last ts') \<in> set (dependencies tx)" by simp
  from dep_chain_snoc [OF ih(1) tx(1) this] have "dep_chain tasks ts" by (simp add: ts)
  moreover have "chain_weight ts = label st x + story_points tx"
    using ih(3) a(4) tx(2) by (simp add: ts)
  moreover have "hd ts = hd ts'" using dep_chain_ne [OF ih(1)] by (simp add: ts)
  ultimately show ?case using bx ih(4) by (simp add: ts)
qed

lemma tasks_of_trace:
  assumes "set tr \<subseteq> t_id ` set tasks"
  shows "\<exists>ts. list_all2 (\<lambda>k t. map_of (dict_comp (\<lambda>t. t) tasks) k = Some t) tr ts"
  using assms
proof (induction tr)
  case Nil
  then show ?case by simp
next
  case (Cons k tr)
  then obtain ts where "list_all2 (\<lambda>k t. map_of (dict_comp (\<lambda>t. t) tasks) k = Some t) tr ts"
    by auto
  moreover from Cons.prems obtain t where "map_of (dict_comp (\<lambda>t. t) tasks) k = Some t"
    using dict_comp_dom [of "\<lambda>t. t" tasks] by auto
  ultimately show ?case by (intro exI [of _ "t # ts"]) simp
qed

lemma earliest_start_label:
  assumes ok: "final_ok tasks st" and t: "t \<in> set tasks"
  shows "earliest_start tasks t = label st (t_id t)"
proof -
  let ?S = "{chain_weight c | c. dep_chain tasks c \<and> t_id (last c) \<in> set (dependencies t)}"
  have "?S \<subseteq> chain_weight ` {c. dep_chain tasks c}" by auto
  then have fin: "finite (insert 0 ?S)"
    using finite_chains [OF ok] by (simp add: finite_subset)
  have ub: "y \<le> label st (t_id t)" if "y \<in> insert 0 ?S" for y
  proof (cases "y = 0")
    case True
    then show ?thesis using final_label_nonneg [OF ok t] by simp
  next
    case False
    with that obtain c where c: "dep_chain tasks c" "t_id (last c) \<in> set (dependencies t)"
      and y: "y = chain_weight c" by auto
    from dep_chain_set [OF c(1)] dep_chain_ne [OF c(1)] have "last c \<in> set tasks" by auto
    from final_edge [OF ok this t c(2)] chain_weight_le [OF ok c(1)] show ?thesis
      by (simp add: y)
  qed
  have mem: "label st (t_id t) \<in> insert 0 ?S"
  proof -
    from t have "t_id t \<in> t_id ` set tasks" by simp
    from kahn_inv_dom [OF final_okD(1) [OF ok] this] obtain p where
      p: "map_of (pred st) (t_id t) = Some p" by auto
    show ?thesis
    proof (cases p)
      case None
      with p final_pred_none [OF ok t] show ?thesis by simp
    next
      case (Some q)
      with p have pq: "map_of (pred st) (t_id t) = Some (Some q)" by simp
      from final_pred_some [OF ok t pq] obtain a where
        a: "a \<in> set tasks" "t_id a = q" "q \<in> set (dependencies t)"
          "label st (t_id t) = label st q + story_points a" by blast
      from a(1,2) have qid: "q \<in> t_id ` set tasks" by auto
      from trace_back_result [OF final_okD(1) [OF ok] final_okD(3) [OF ok] qid, of "[]"]
      obtain tr where tr: "hd tr = q" "is_trace (map_of (pred st)) tr"
        "set tr \<subseteq> t_id ` set tasks" by auto
      from tasks_of_trace [of "rev tr" tasks] tr(3) obtain ts where
        ts: "list_all2 (\<lambda>k t. map_of (dict_comp (\<lambda>t. t) tasks) k = Some t) (rev tr) ts"
        by auto
      from trace_chain [OF ok tr(2) ts] tr(1) have c: "dep_chain tasks ts"
        "map_of (dict_comp (\<lambda>t. t) tasks) q = Some (last ts)"
        "chain_weight ts = label st q + story_points (last ts)" by simp_all
      from final_by_id_unique [OF ok c(2)] have "last ts \<in> set tasks" "t_id (last ts) = q"
        by simp_all
      with final_same_id [OF ok a(1)] a(2) have "a = last ts" by simp
      with c(3) a(4) have "label st (t_id t) = chain_weight ts" by simp
      moreover have "t_id (last ts) \<in> set (dependencies t)"
        using \<open>t_id (last ts) = q\<close> a(3) by simp
      ultimately show ?thesis using c(1) by blast
    qed
  qed
  show ?thesis
    unfolding earliest_start_def using fin ub mem by (rule Max_eqI)
qed

lemma finish_time_label:
  assumes "final_ok tasks st" "t \<in> set tasks"
  shows "finish_time tasks t = label st (t_id t) + story_points t"
  by (simp add: finish_time_def earliest_start_label [OF assms])

section \<open>The acyclic case\<close>

lemma kahn_phase_acyclic:
  assumes ac: "acyclic (dep_edges tasks)" and dist: "distinct (map t_id tasks)"
    and pos: "\<forall>t\<in>set tasks. 0 < story_points t"
  shows "\<exists>g st. build_graph (dict_comp (\<lambda>t. t) tasks) tasks = Inr g
     \<and> kahn_loop (dict_comp (\<lambda>t. t) tasks) (snd g) (initial_state tasks (fst g)) = Inr st
     \<and> final_ok tasks st \<and> length (topo_order st) = length tasks"
proof -
  from build_graph_result [of tasks] obtain g where
    g: "build_graph (dict_comp (\<lambda>t. t) tasks) tasks = Inr g" "distinct (map fst (fst g))"
      "\<forall>k. map_of (fst g) k =
           (if k \<in> t_id ` set tasks
            then Some (int (length (filter (\<lambda>e. snd e = k) (edge_list tasks)))) else None)"
      "\<forall>d. getitem_default (snd g) d = map snd (filter (\<lambda>e. fst e = d) (edge_list tasks))"
    by blast
  note i0 = initial_state_inv [OF g(2) g(3)]
  from kahn_loop_inv [OF i0 g(4) refl] obtain st where
    st: "kahn_loop (dict_comp (\<lambda>t. t) tasks) (snd g) (initial_state tasks (fst g)) = Inr st"
      "kahn_inv tasks st" "queue st = []"
    by blast
  from kahn_loop_earliest_inv [OF i0 initial_state_earliest_inv g(4) refl st(1)]
  have e: "earliest_inv tasks st" .
  from acyclic_topo_full [OF st(2,3) ac] have full: "set (topo_order st) = t_id ` set tasks" .
  from kahn_inv_distinct [OF st(2)] have "distinct (topo_order st)" by simp
  then have "length (topo_order st) = card (t_id ` set tasks)"
    using full by (metis distinct_card)
  also have "\<dots> = length tasks"
    using dist by (metis distinct_card length_map list.set_map)
  finally have len: "length (topo_order st) = length tasks" .
  have "final_ok tasks st"
    unfolding final_ok_def using st(2) e full dist pos by simp
  with g(1) st(1) len show ?thesis by blast
qed

lemma critical_path_acyclic:
  assumes ac: "acyclic (dep_edges tasks)" and dist: "distinct (map t_id tasks)"
    and pos: "\<forall>t\<in>set tasks. 0 < story_points t" and ne: "tasks \<noteq> []"
  shows "\<exists>path. critical_path tasks = Some (Inr path)
     \<and> dep_chain tasks path
     \<and> length path \<le> length tasks
     \<and> set (dependencies (hd path)) \<inter> t_id ` set tasks = {}
     \<and> (\<forall>c. dep_chain tasks c \<longrightarrow> chain_weight c \<le> chain_weight path)
     \<and> chain_weight path = Max (finish_time tasks ` set tasks)"
proof -
  let ?by_id = "dict_comp (\<lambda>t. t) tasks"
  from kahn_phase_acyclic [OF ac dist pos] obtain g st where
    g: "build_graph ?by_id tasks = Inr g"
      "kahn_loop ?by_id (snd g) (initial_state tasks (fst g)) = Inr st"
    and ok: "final_ok tasks st" and len: "length (topo_order st) = length tasks"
    by blast
  note inv = final_okD(1) [OF ok]
  from select_path_result [OF inv len ne] obtain end_id fe tr ts where
    sp: "select_path ?by_id st = Some (Inr ts)"
    and fe: "finish_key ?by_id (earliest st) end_id = Inr fe"
    and mx: "\<forall>k\<in>t_id ` set tasks. \<forall>f. finish_key ?by_id (earliest st) k = Inr f \<longrightarrow> f \<le> fe"
    and tr: "hd tr = end_id" "is_trace (map_of (pred st)) tr"
    and ts: "list_all2 (\<lambda>k t. map_of ?by_id k = Some t) (rev tr) ts"
    by blast
  have cp: "critical_path tasks = Some (Inr ts)"
    using ne g len sp by (simp add: critical_path_def)
  from trace_chain [OF ok tr(2) ts] tr(1) have ch: "dep_chain tasks ts"
    "map_of ?by_id end_id = Some (last ts)"
    "chain_weight ts = label st end_id + story_points (last ts)"
    "set (dependencies (hd ts)) \<inter> t_id ` set tasks = {}" by simp_all
  from final_by_id_unique [OF ok ch(2)] have lt: "last ts \<in> set tasks" "t_id (last ts) = end_id"
    by simp_all
  have fk: "finish_key ?by_id (earliest st) (t_id t) = Inr (label st (t_id t) + story_points t)"
    if "t \<in> set tasks" for t
    using final_label [OF ok that] final_by_id [OF ok that]
    by (simp add: finish_key_def getitem_def)
  from fk [OF lt(1)] fe lt(2) ch(3) have few: "fe = chain_weight ts" by simp
  have le: "label st (t_id t) + story_points t \<le> chain_weight ts" if "t \<in> set tasks" for t
    using mx fk [OF that] that few by auto
  have heavy: "chain_weight c \<le> chain_weight ts" if c: "dep_chain tasks c" for c
  proof -
    from dep_chain_set [OF c] dep_chain_ne [OF c] have "last c \<in> set tasks" by auto
    from le [OF this] chain_weight_le [OF ok c] show ?thesis by simp
  qed
  have "Max (finish_time tasks ` set tasks) = chain_weight ts"
  proof (rule Max_eqI)
    show "finite (finish_time tasks ` set tasks)" by simp
    show "y \<le> chain_weight ts" if "y \<in> finish_time tasks ` set tasks" for y
      using that le by (auto simp: finish_time_label [OF ok])
    show "chain_weight ts \<in> finish_time tasks ` set tasks"
      using lt ch(3) finish_time_label [OF ok lt(1)] by (auto simp: image_iff intro!: bexI [of _ "last ts"])
  qed
  with cp ch(1,4) chain_distinct(2) [OF ok ch(1)] heavy show ?thesis by auto
qed

section \<open>Uniqueness of the keys of the store\<close>

lemma store_wf_empty: "store_wf empty_store"
  by (simp add: store_wf_def empty_store_def)

lemma store_wf_create_project:
  "store_wf s \<Longrightarrow> create_project s i now nm ow dl d = Inr (s', p) \<Longrightarrow> store_wf s'"
  by (auto simp: store_wf_def create_project_def Let_def split: if_splits)

lemma distinct_insert_dependency:
  "distinct ds \<Longrightarrow> distinct (insert_dependency tid dep ds)"
  by (simp add: insert_dependency_def)

lemma distinct_fold_insert_dependency:
  "distinct ds \<Longrightarrow> distinct (fold (\<lambda>dep ds. insert_dependency tid dep ds) deps ds)"
  by (induction deps arbitrary: ds) (simp_all add: distinct_insert_dependency)

lemma store_wf_add_task:
  "store_wf s \<Longrightarrow> add_task s t = Inr (s', t') \<Longrightarrow> store_wf s'"
  by (auto simp: store_wf_def add_task_def sqlite_integer_def task_row.defs distinct_fold_insert_dependency
        split: if_splits)

lemma store_wf_add_dependency: "store_wf s \<Longrightarrow> store_wf (add_dependency s tid dep)"
  by (simp add: store_wf_def add_dependency_def distinct_insert_dependency)

lemma store_wf_update_task_status:
  assumes "store_wf s"
  shows "store_wf (fst (update_task_status s now tid status))"
proof -
  let ?s' = "fst (update_task_status s now tid status)"
  have "map t_id (tbl_tasks ?s') = map t_id (tbl_tasks s)"
    by (simp add: update_task_status_def Let_def)
  moreover have "tbl_projects ?s' = tbl_projects s" "tbl_dependencies ?s' = tbl_dependencies s"
    by (simp_all add: update_task_status_def Let_def)
  ultimately show ?thesis using assms unfolding store_wf_def by simp
qed

lemma store_wf_update_project_status:
  assumes "store_wf s"
  shows "store_wf (fst (update_project_status s pid status))"
proof -
  let ?s' = "fst (update_project_status s pid status)"
  have "map p_id (tbl_projects ?s') = map p_id (tbl_projects s)"
    by (simp add: update_project_status_def)
  moreover have "tbl_tasks ?s' = tbl_tasks s" "tbl_dependencies ?s' = tbl_dependencies s"
    by (simp_all add: update_project_status_def)
  ultimately show ?thesis using assms unfolding store_wf_def by simp
qed

lemma store_wf_apply_ops: "store_wf s \<Longrightarrow> store_wf (apply_ops s ops)"
  unfolding apply_ops_def
proof (induction ops arbitrary: s)
  case Nil
  then show ?case by simp
next
  case (Cons x ops)
  have "store_wf (apply_op s x)"
    using Cons.prems
    by (cases x) (auto simp: store_wf_update_task_status split: sum.splits
          dest: store_wf_add_task)
  then show ?case using Cons.IH by simp
qed

lemma t_id_row_to_task [simp]: "t_id (row_to_task r d) = t_id r"
  by (simp add: row_to_task_def task_row.defs)

lemma get_project_tasks_distinct:
  assumes "store_wf s"
  shows "distinct (map t_id (get_project_tasks s pid))"
proof -
  let ?rows = "filter (\<lambda>r. project_id r = pid) (tbl_tasks s)"
  from assms have "distinct (map t_id ?rows)"
    by (simp add: store_wf_def distinct_map_filter)
  moreover have "mset (map t_id (sort_key order_key ?rows)) = mset (map t_id ?rows)"
    by simp
  ultimately have "distinct (map t_id (sort_key order_key ?rows))"
    by (metis mset_eq_imp_distinct_iff)
  then show ?thesis by (simp add: get_project_tasks_def o_def)
qed

lemmas cp_defs = get_critical_path_def critical_path_def dict_comp_def
  setitem_def getitem_def build_graph_def contains_def add_edge_def getitem_default_def
  initial_state_def process_def relax_def select_path_def finish_key_def py_max_def
  Let_def kahn_loop.simps trace_back.simps

section \<open>The critical path of an acyclic graph\<close>

text \<open>
  C1: on a store whose task ids are unique (the primary key of the table), for a project
  whose dependency edges among its tasks are acyclic and whose story points are all
  positive, \<^verbatim>\<open>get_critical_path\<close> returns a sequence no longer than the task list; for
  an empty task list it is empty, otherwise it is a dependency chain of input tasks whose
  first element has no prerequisite among the input tasks and whose total story points
  equal the maximum over all tasks of the finish time (longest-path earliest start plus
  own weight).
\<close>

theorem C1_critical_path_acyclic:
  assumes wf: "store_wf s"
    and ac: "acyclic (dep_edges (get_project_tasks s pid))"
    and pos: "\<forall>t\<in>set (get_project_tasks s pid). 0 < story_points t"
  shows "\<exists>path. get_critical_path s pid = Some (Inr path)
     \<and> length path \<le> length (get_project_tasks s pid)
     \<and> (get_project_tasks s pid = [] \<longrightarrow> path = [])
     \<and> (get_project_tasks s pid \<noteq> [] \<longrightarrow>
          dep_chain (get_project_tasks s pid) path
        \<and> set (dependencies (hd path)) \<inter> t_id ` set (get_project_tasks s pid) = {}
        \<and> sum_list (map story_points path) =
            Max (finish_time (get_project_tasks s pid) ` set (get_project_tasks s pid)))"
proof (cases "get_project_tasks s pid = []")
  case True
  then show ?thesis by (simp add: get_critical_path_def critical_path_def)
next
  case False
  from critical_path_acyclic [OF ac get_project_tasks_distinct [OF wf] pos False]
  show ?thesis
    unfolding get_critical_path_def chain_weight_def using False by auto
qed

lemma ex_diamond_tasks:
  "get_project_tasks ex_diamond_store ''p'' =
     [mk_task ''a'' 1 2 [], mk_task ''b'' 1 5 [''a''],
      mk_task ''c'' 1 1 [''a''], mk_task ''d'' 1 1 [''b'', ''c'']]"
  by (simp add: ex_diamond_store_def store_defs)

lemma ex_diamond_acyclic: "acyclic (dep_edges (get_project_tasks ex_diamond_store ''p''))"
proof -
  have e: "edge_list (get_project_tasks ex_diamond_store ''p'') =
      [(''a'', ''b''), (''a'', ''c''), (''b'', ''d''), (''c'', ''d'')]"
    by (simp add: ex_diamond_tasks edge_list_def mk_task_def)
  let ?f = "\<lambda>x. if x = ''a'' then 3 else if x = ''d'' then 1 else (2::nat)"
  have "?f b < ?f a" if "(a, b) \<in> dep_edges (get_project_tasks ex_diamond_store ''p'')" for a b
    using that unfolding set_edge_list [symmetric] e by auto
  then show ?thesis by (rule acyclicI_order)
qed

lemma ex_diamond_path:
  "get_critical_path ex_diamond_store ''p'' =
     Some (Inr [mk_task ''a'' 1 2 [], mk_task ''b'' 1 5 [''a''], mk_task ''d'' 1 1 [''b'', ''c'']])"
  unfolding get_critical_path_def ex_diamond_tasks
  by (simp add: cp_defs mk_task_def ex_todo_task_def ex_done_task_def)

theorem C1_critical_path_acyclic_witness:
  "store_wf ex_diamond_store
   \<and> acyclic (dep_edges (get_project_tasks ex_diamond_store ''p''))
   \<and> map story_points (get_project_tasks ex_diamond_store ''p'') = [2, 5, 1, 1]
   \<and> get_critical_path ex_diamond_store ''p'' =
       Some (Inr [mk_task ''a'' 1 2 [], mk_task ''b'' 1 5 [''a''], mk_task ''d'' 1 1 [''b'', ''c'']])
   \<and> Max (finish_time (get_project_tasks ex_diamond_store ''p'')
            ` set (get_project_tasks ex_diamond_store ''p'')) = 8"
proof -
  have wf: "store_wf ex_diamond_store"
    unfolding ex_diamond_store_def by (rule store_wf_apply_ops [OF store_wf_empty])
  have pos: "\<forall>t\<in>set (get_project_tasks ex_diamond_store ''p''). 0 < story_points t"
    by (simp add: ex_diamond_tasks mk_task_def)
  from C1_critical_path_acyclic [OF wf ex_diamond_acyclic pos]
  have "Max (finish_time (get_project_tasks ex_diamond_store ''p'')
            ` set (get_project_tasks ex_diamond_store ''p'')) = 8"
    unfolding ex_diamond_path by (simp add: ex_diamond_tasks) (simp add: mk_task_def)
  moreover have "map story_points (get_project_tasks ex_diamond_store ''p'') = [2, 5, 1, 1]"
    by (simp add: ex_diamond_tasks mk_task_def)
  ultimately show ?thesis using wf ex_diamond_acyclic ex_diamond_path by simp
qed


section \<open>A linear chain of three tasks\<close>

lemma ex_zero_tasks:
  "get_project_tasks ex_zero_store ''p'' =
     [mk_task ''a'' 1 0 [], mk_task ''b'' 1 5 [''a''], mk_task ''c'' 1 1 [''b'']]"
  by (simp add: ex_zero_store_def store_defs)

text \<open>
  C6, as stated, fails: the claim is made for all story-point weights, and the type of
  \<^verbatim>\<open>story_points\<close> is \<^verbatim>\<open>int\<close>. With weight 0 for A, the finish time of A does not
  exceed the initial label 0 of B, so no predecessor is recorded for B and the walk back
  from C stops at B: the result is [B, C].
\<close>

theorem C6_zero_weight_counterexample:
  "get_critical_path ex_zero_store ''p'' =
     Some (Inr [mk_task ''b'' 1 5 [''a''], mk_task ''c'' 1 1 [''b'']])"
  unfolding get_critical_path_def ex_zero_tasks
  by (simp add: cp_defs mk_task_def ex_todo_task_def ex_done_task_def)

text \<open>
  C6, amended: for every linear three-task chain A, B, C (A has no dependencies, B depends
  on A, C depends on B) with positive story points, in whatever order the store returns
  the three tasks, \<^verbatim>\<open>get_critical_path\<close> returns exactly [A, B, C].
\<close>

theorem C6_linear_chain:
  assumes wf: "store_wf s"
    and tasks: "set (get_project_tasks s pid) = {A, B, C}"
    and dA: "dependencies A = []" and dB: "dependencies B = [t_id A]"
    and dC: "dependencies C = [t_id B]"
    and pos: "0 < story_points A" "0 < story_points B" "0 < story_points C"
  shows "get_critical_path s pid = Some (Inr [A, B, C])"
proof -
  let ?tasks = "get_project_tasks s pid"
  note dist = get_project_tasks_distinct [OF wf, of pid]
  have same: "x = y" if "x \<in> set ?tasks" "y \<in> set ?tasks" "t_id x = t_id y" for x y
    using dist that by (auto simp: distinct_map inj_on_def)
  have mem: "A \<in> set ?tasks" "B \<in> set ?tasks" "C \<in> set ?tasks"
    using tasks by simp_all
  have ab: "t_id A \<noteq> t_id B"
    using same [OF mem(1,2)] dA dB by auto
  have bc: "t_id B \<noteq> t_id C"
    using same [OF mem(2,3)] dB dC ab by auto
  have ac: "t_id A \<noteq> t_id C"
    using same [OF mem(1,3)] dA dC by auto
  have edges: "dep_edges ?tasks \<subseteq> {(t_id A, t_id B), (t_id B, t_id C)}"
    unfolding dep_edges_def tasks using dA dB dC by auto
  let ?f = "\<lambda>x. if x = t_id A then 2 else if x = t_id B then 1 else (0::nat)"
  have "?f b < ?f a" if "(a, b) \<in> dep_edges ?tasks" for a b
    using that ab bc ac edges by auto
  then have acyc: "acyclic (dep_edges ?tasks)" by (rule acyclicI_order)
  have posall: "\<forall>t\<in>set ?tasks. 0 < story_points t"
    using pos by (simp add: tasks)
  have ne: "?tasks \<noteq> []" using tasks by auto
  from critical_path_acyclic [OF acyc dist posall ne] obtain path where
    p: "critical_path ?tasks = Some (Inr path)" "dep_chain ?tasks path"
      "set (dependencies (hd path)) \<inter> t_id ` set ?tasks = {}"
      "\<forall>c. dep_chain ?tasks c \<longrightarrow> chain_weight c \<le> chain_weight path"
    by blast
  have "dep_chain ?tasks [A, B, C]"
    using mem dB dC by simp
  with p(4) have w: "story_points A + story_points B + story_points C \<le> chain_weight path"
    by (fastforce simp: chain_weight_def)
  have ids: "t_id ` set ?tasks = {t_id A, t_id B, t_id C}" by (simp add: tasks)
  from p(2) obtain x r1 where path1: "path = x # r1" by (cases path) auto
  from p(2) path1 have "x \<in> set ?tasks" by (cases r1) auto
  with p(3) path1 dB dC have x: "x = A" by (auto simp: tasks ids)
  have "path = [A, B, C]"
  proof (cases r1)
    case Nil
    with w path1 x pos show ?thesis by (simp add: chain_weight_def)
  next
    case (Cons y r2)
    with p(2) path1 x have y: "t_id A \<in> set (dependencies y)" "dep_chain ?tasks (y # r2)"
      by simp_all
    from y(2) have "y \<in> set ?tasks" by (cases r2) auto
    with y(1) dA dC ab have yB: "y = B" by (auto simp: tasks)
    show ?thesis
    proof (cases r2)
      case Nil
      with w path1 x Cons yB pos show ?thesis by (simp add: chain_weight_def)
    next
      case c3: (Cons z r3)
      with y(2) yB have z: "t_id B \<in> set (dependencies z)" "dep_chain ?tasks (z # r3)"
        by simp_all
      from z(2) have "z \<in> set ?tasks" by (cases r3) auto
      with z(1) dA dB ab have zC: "z = C" by (auto simp: tasks)
      show ?thesis
      proof (cases r3)
        case Nil
        with path1 x Cons yB c3 zC show ?thesis by simp
      next
        case c4: (Cons u r4)
        with z(2) zC have u: "t_id C \<in> set (dependencies u)" "dep_chain ?tasks (u # r4)"
          by simp_all
        from u(2) have "u \<in> set ?tasks" by (cases r4) auto
        with u(1) dA dB dC ac bc show ?thesis by (auto simp: tasks)
      qed
    qed
  qed
  with p(1) show ?thesis by (simp add: get_critical_path_def)
qed

lemma ex_chain_tasks:
  "get_project_tasks ex_chain_store ''p'' =
     [mk_task ''c'' 1 1 [''b''], mk_task ''a'' 1 2 [], mk_task ''b'' 1 5 [''a'']]"
  by (simp add: ex_chain_store_def store_defs)

theorem C6_linear_chain_witness:
  "store_wf ex_chain_store
   \<and> set (get_project_tasks ex_chain_store ''p'') =
       {mk_task ''a'' 1 2 [], mk_task ''b'' 1 5 [''a''], mk_task ''c'' 1 1 [''b'']}
   \<and> dependencies (mk_task ''a'' 1 2 []) = []
   \<and> dependencies (mk_task ''b'' 1 5 [''a'']) = [t_id (mk_task ''a'' 1 2 [])]
   \<and> dependencies (mk_task ''c'' 1 1 [''b'']) = [t_id (mk_task ''b'' 1 5 [''a''])]
   \<and> 0 < story_points (mk_task ''a'' 1 2 [])
   \<and> 0 < story_points (mk_task ''b'' 1 5 [''a''])
   \<and> 0 < story_points (mk_task ''c'' 1 1 [''b''])
   \<and> get_critical_path ex_chain_store ''p'' =
       Some (Inr [mk_task ''a'' 1 2 [], mk_task ''b'' 1 5 [''a''], mk_task ''c'' 1 1 [''b'']])"
proof -
  have wf: "store_wf ex_chain_store"
    unfolding ex_chain_store_def by (rule store_wf_apply_ops [OF store_wf_empty])
  have s: "set (get_project_tasks ex_chain_store ''p'') =
       {mk_task ''a'' 1 2 [], mk_task ''b'' 1 5 [''a''], mk_task ''c'' 1 1 [''b'']}"
    by (auto simp: ex_chain_tasks)
  have d: "dependencies (mk_task ''a'' 1 2 []) = []"
    "dependencies (mk_task ''b'' 1 5 [''a'']) = [t_id (mk_task ''a'' 1 2 [])]"
    "dependencies (mk_task ''c'' 1 1 [''b'']) = [t_id (mk_task ''b'' 1 5 [''a''])]"
    "0 < story_points (mk_task ''a'' 1 2 [])"
    "0 < story_points (mk_task ''b'' 1 5 [''a''])"
    "0 < story_points (mk_task ''c'' 1 1 [''b''])"
    by (simp_all add: mk_task_def)
  from C6_linear_chain [OF wf s d] wf s d show ?thesis by simp
qed

section \<open>The burndown chart\<close>

lemma date_add_ok:
  "1 \<le> d \<Longrightarrow> 0 \<le> n \<Longrightarrow> d + n \<le> max_ordinal \<Longrightarrow> date_add d n = Inr (d + n)"
  by (simp add: date_add_def max_ordinal_def)

lemma date_sub_ok:
  "d \<le> max_ordinal \<Longrightarrow> 0 \<le> n \<Longrightarrow> n < d \<Longrightarrow> date_sub d n = Inr (d - n)"
  by (simp add: date_sub_def date_add_def max_ordinal_def)

lemma date_sub_overflow: "1 \<le> d \<Longrightarrow> d \<le> n \<Longrightarrow> date_sub d n = Inl OverflowError"
  by (simp add: date_sub_def date_add_def)

lemma chart_loop_result:
  assumes "1 \<le> start" and "\<forall>i\<in>set is. 0 \<le> i \<and> start + i \<le> max_ordinal"
  shows "\<exists>chart. chart_loop cbd start tp ipd is r = Inr chart
           \<and> length chart = length is
           \<and> map bd_day chart = is
           \<and> map bd_date chart = map (\<lambda>i. start + i) is
           \<and> map bd_ideal chart = map (\<lambda>i. round2 (int_sub_float tp (float_mul_int ipd i))) is"
  using assms(2)
proof (induction "is" arbitrary: r)
  case Nil
  then show ?case by simp
next
  case (Cons i rest)
  from Cons.prems assms(1) have d: "date_add start i = Inr (start + i)"
    by (simp add: date_add_ok)
  from Cons.prems have "\<forall>i\<in>set rest. 0 \<le> i \<and> start + i \<le> max_ordinal" by simp
  from Cons.IH [OF this, of "r - (case cbd (start + i) of None \<Rightarrow> 0 | Some v \<Rightarrow> v)"]
  obtain chart where
    c: "chart_loop cbd start tp ipd rest (r - (case cbd (start + i) of None \<Rightarrow> 0 | Some v \<Rightarrow> v)) =
          Inr chart"
      "length chart = length rest" "map bd_day chart = rest"
      "map bd_date chart = map (\<lambda>i. start + i) rest"
      "map bd_ideal chart = map (\<lambda>i. round2 (int_sub_float tp (float_mul_int ipd i))) rest"
    by blast
  show ?case by (simp add: d c Let_def)
qed

lemma calculate_burndown_zero_total:
  "sum_list (map story_points (get_project_tasks s pid)) = 0 \<Longrightarrow>
     calculate_burndown s today pid n = Inr []"
  by (simp add: calculate_burndown_def)

lemma calculate_burndown_zero_days:
  "sum_list (map story_points (get_project_tasks s pid)) \<noteq> 0 \<Longrightarrow>
     calculate_burndown s today pid 0 = Inl ZeroDivisionError"
  by (simp add: calculate_burndown_def truediv_def date_sub_def date_add_def)

lemma calculate_burndown_overflow:
  "sum_list (map story_points (get_project_tasks s pid)) \<noteq> 0 \<Longrightarrow> 1 \<le> today \<Longrightarrow> today \<le> n \<Longrightarrow>
     calculate_burndown s today pid n = Inl OverflowError"
  by (simp add: calculate_burndown_def date_sub_overflow)

lemma calculate_burndown_chart:
  assumes "sum_list (map story_points (get_project_tasks s pid)) \<noteq> 0"
    and "1 \<le> n" and "n < today" and "today \<le> max_ordinal"
  shows "\<exists>chart. calculate_burndown s today pid n = Inr chart
     \<and> length chart = length [0..n]
     \<and> map bd_day chart = [0..n]
     \<and> map bd_date chart = map (\<lambda>i. today - n + i) [0..n]
     \<and> map bd_ideal chart =
         map (\<lambda>i. round2 (int_sub_float (sum_list (map story_points (get_project_tasks s pid)))
                (float_mul_int
                   (fl (of_int (sum_list (map story_points (get_project_tasks s pid))) / of_int n)) i)))
           [0..n]"
proof -
  from assms have d: "date_sub today n = Inr (today - n)" by (simp add: date_sub_ok)
  from assms have "1 \<le> today - n" "\<forall>i\<in>set [0..n]. 0 \<le> i \<and> today - n + i \<le> max_ordinal"
    by simp_all
  from chart_loop_result [OF this] assms(1,2) d show ?thesis
    by (simp add: calculate_burndown_def truediv_def Let_def)
qed

lemmas float_defs = fl_def binade_def exp_up.simps exp_down.simps pow2_def round_half_even_def
  int_to_float_def float_mul_int_def int_sub_float_def round2_def Let_def

lemma ideal_6_5:
  "round2 (int_sub_float 6 (float_mul_int (fl (6 / 5)) 0)) = 6"
  "round2 (int_sub_float 6 (float_mul_int (fl (6 / 5)) 5)) = 0"
proof -
  have a: "fl (6 / 5) = 5404319552844595 / 4503599627370496"
    by (simp add: float_defs)
  have b: "fl 5 = 5" "fl 6 = 6" "fl 600 = 600"
    by (simp_all add: float_defs)
  have c: "fl (5404319552844595 / 4503599627370496 * 5) = 6"
    by (simp add: float_defs)
  show "round2 (int_sub_float 6 (float_mul_int (fl (6 / 5)) 0)) = 6"
    by (simp add: a int_to_float_def float_mul_int_def int_sub_float_def round2_def)
       (simp add: float_defs)
  show "round2 (int_sub_float 6 (float_mul_int (fl (6 / 5)) 5)) = 0"
    by (simp add: a b c int_to_float_def float_mul_int_def int_sub_float_def round2_def)
       (simp add: float_defs)
qed

lemma ex_three_tasks:
  "get_project_tasks ex_three_store ''p'' =
     [mk_task ''t0'' 3 2 [], mk_task ''t1'' 3 2 [], mk_task ''t2'' 3 2 []]"
  by (simp add: ex_three_store_def store_defs)

lemma ex_signed_tasks:
  "get_project_tasks ex_signed_store ''p'' = [mk_task ''t0'' 3 2 [], mk_task ''t1'' 3 (- 2) []]"
  by (simp add: ex_signed_store_def store_defs)

text \<open>
  C7, as stated, fails for a sprint of zero days: the total is 6, not zero, and the call
  raises \<^verbatim>\<open>ZeroDivisionError\<close> instead of returning one data point.
\<close>

theorem C7_zero_days_counterexample:
  "sum_list (map story_points (get_project_tasks ex_three_store ''p'')) = 6
   \<and> calculate_burndown ex_three_store 739000 ''p'' 0 = Inl ZeroDivisionError"
  by (simp add: calculate_burndown_def truediv_def date_sub_def date_add_def ex_three_tasks
        mk_task_def)

text \<open>
  C7, amended: \<^verbatim>\<open>calculate_burndown\<close> returns the empty chart when the story points of
  the project sum to zero. When they do not, the sprint has at least one day and its first
  day \<^verbatim>\<open>today - sprint_days\<close> is a date (\<^verbatim>\<open>sprint_days\<close> is less than the ordinal of today),
  it returns \<^verbatim>\<open>sprint_days + 1\<close> points, numbered 0 to \<^verbatim>\<open>sprint_days\<close> and dated from the
  first day of the sprint to today; for a longer sprint it raises \<^verbatim>\<open>OverflowError\<close>. For
  three tasks of two story points each and a sprint of five days it returns six points,
  the ideal value being 6.0 on day 0 and 0.0 on day 5.
\<close>

theorem C7_calculate_burndown:
  "(sum_list (map story_points (get_project_tasks s pid)) = 0 \<longrightarrow>
      calculate_burndown s today pid n = Inr [])
   \<and> (sum_list (map story_points (get_project_tasks s pid)) \<noteq> 0
        \<and> is_date today \<and> 1 \<le> n \<and> n < today \<longrightarrow>
        (\<exists>chart. calculate_burndown s today pid n = Inr chart
           \<and> int (length chart) = n + 1 \<and> map bd_day chart = [0..n]
           \<and> map bd_date chart = map (\<lambda>i. today - n + i) [0..n]))
   \<and> (sum_list (map story_points (get_project_tasks s pid)) \<noteq> 0
        \<and> is_date today \<and> today \<le> n \<longrightarrow>
        calculate_burndown s today pid n = Inl OverflowError)
   \<and> (map story_points (get_project_tasks s pid) = [2, 2, 2] \<and> is_date today \<and> 5 < today \<longrightarrow>
        (\<exists>chart. calculate_burndown s today pid 5 = Inr chart
           \<and> length chart = 6 \<and> map bd_day chart = [0, 1, 2, 3, 4, 5]
           \<and> bd_ideal (chart ! 0) = 6 \<and> bd_ideal (chart ! 5) = 0))"
proof (intro conjI impI)
  assume "sum_list (map story_points (get_project_tasks s pid)) = 0"
  then show "calculate_burndown s today pid n = Inr []"
    by (rule calculate_burndown_zero_total)
next
  assume a: "sum_list (map story_points (get_project_tasks s pid)) \<noteq> 0
    \<and> is_date today \<and> 1 \<le> n \<and> n < today"
  then have h: "sum_list (map story_points (get_project_tasks s pid)) \<noteq> 0" "1 \<le> n" "n < today"
    "today \<le> max_ordinal"
    by (simp_all add: is_date_def)
  from calculate_burndown_chart [OF h] obtain chart where
    c: "calculate_burndown s today pid n = Inr chart" "length chart = length [0..n]"
      "map bd_day chart = [0..n]" "map bd_date chart = map (\<lambda>i. today - n + i) [0..n]"
    by blast
  from h(2) c(2) have "int (length chart) = n + 1" by simp
  with c(1,3,4) show "\<exists>chart. calculate_burndown s today pid n = Inr chart
           \<and> int (length chart) = n + 1 \<and> map bd_day chart = [0..n]
           \<and> map bd_date chart = map (\<lambda>i. today - n + i) [0..n]" by blast
next
  assume "sum_list (map story_points (get_project_tasks s pid)) \<noteq> 0 \<and> is_date today \<and> today \<le> n"
  then show "calculate_burndown s today pid n = Inl OverflowError"
    by (simp add: calculate_burndown_overflow is_date_def)
next
  assume w: "map story_points (get_project_tasks s pid) = [2, 2, 2] \<and> is_date today \<and> 5 < today"
  then have t: "sum_list (map story_points (get_project_tasks s pid)) = 6" by simp
  from w have h: "(1 :: int) \<le> 5" "5 < today" "today \<le> max_ordinal" by (simp_all add: is_date_def)
  have u: "[0..5] = [0, 1, 2, 3, 4, 5 :: int]" by (simp add: upto_rec1)
  from calculate_burndown_chart [of s pid 5 today, OF _ h] t obtain chart where
    c: "calculate_burndown s today pid 5 = Inr chart" "length chart = length [0..5::int]"
      "map bd_day chart = [0..5]"
      "map bd_ideal chart =
         map (\<lambda>i. round2 (int_sub_float 6 (float_mul_int (fl (6 / 5)) i))) [0..5]"
    by auto
  from c(2) have l: "length chart = 6" by (simp add: u)
  have "bd_ideal (chart ! 0) = map bd_ideal chart ! 0" "bd_ideal (chart ! 5) = map bd_ideal chart ! 5"
    using l by simp_all
  then have "bd_ideal (chart ! 0) = 6" "bd_ideal (chart ! 5) = 0"
    unfolding c(4) u by (simp_all add: ideal_6_5)
  with c(1,3) l u show "\<exists>chart. calculate_burndown s today pid 5 = Inr chart
           \<and> length chart = 6 \<and> map bd_day chart = [0, 1, 2, 3, 4, 5]
           \<and> bd_ideal (chart ! 0) = 6 \<and> bd_ideal (chart ! 5) = 0" by auto
qed

theorem C7_calculate_burndown_witness:
  "map story_points (get_project_tasks ex_three_store ''p'') = [2, 2, 2]
   \<and> sum_list (map story_points (get_project_tasks ex_three_store ''p'')) \<noteq> 0
   \<and> is_date 739000 \<and> (1 :: int) \<le> 5 \<and> (5 :: int) < 739000
   \<and> (\<exists>chart. calculate_burndown ex_three_store 739000 ''p'' 5 = Inr chart
         \<and> length chart = 6 \<and> map bd_day chart = [0, 1, 2, 3, 4, 5]
         \<and> bd_ideal (chart ! 0) = 6 \<and> bd_ideal (chart ! 5) = 0)
   \<and> (739000 :: int) \<le> 1000000
   \<and> calculate_burndown ex_three_store 739000 ''p'' 1000000 = Inl OverflowError
   \<and> sum_list (map story_points (get_project_tasks ex_signed_store ''p'')) = 0
   \<and> calculate_burndown ex_signed_store 739000 ''p'' 5 = Inr []"
proof -
  have w: "map story_points (get_project_tasks ex_three_store ''p'') = [2, 2, 2]"
    by (simp add: ex_three_tasks mk_task_def)
  have z: "sum_list (map story_points (get_project_tasks ex_signed_store ''p'')) = 0"
    by (simp add: ex_signed_tasks mk_task_def)
  have d: "is_date 739000" by (simp add: is_date_def max_ordinal_def)
  note A = C7_calculate_burndown [of ex_three_store "''p''" 739000 5]
  note B = C7_calculate_burndown [of ex_three_store "''p''" 739000 1000000]
  note C = C7_calculate_burndown [of ex_signed_store "''p''" 739000 5]
  from A [THEN conjunct2, THEN conjunct2, THEN conjunct2] w d
  have 1: "\<exists>chart. calculate_burndown ex_three_store 739000 ''p'' 5 = Inr chart
         \<and> length chart = 6 \<and> map bd_day chart = [0, 1, 2, 3, 4, 5]
         \<and> bd_ideal (chart ! 0) = 6 \<and> bd_ideal (chart ! 5) = 0"
    by simp
  from w have nz: "sum_list (map story_points (get_project_tasks ex_three_store ''p'')) \<noteq> 0"
    by simp
  from B [THEN conjunct2, THEN conjunct2, THEN conjunct1] nz d
  have 2: "calculate_burndown ex_three_store 739000 ''p'' 1000000 = Inl OverflowError"
    by simp
  from C [THEN conjunct1] z
  have 3: "calculate_burndown ex_signed_store 739000 ''p'' 5 = Inr []"
    by simp
  have 4: "(1 :: int) \<le> 5" "(5 :: int) < 739000" "(739000 :: int) \<le> 1000000" by simp_all
  from w nz d 4 1 2 z 3 show ?thesis by (intro conjI)
qed

section \<open>A sprint of zero days\<close>

text \<open>
  C10, as stated, fails when story points cancel: the project below has a task of two
  story points and a task of minus two, the total is zero and the call returns the empty
  chart before it divides.
\<close>

theorem C10_negative_points_counterexample:
  "0 < story_points (hd (get_project_tasks ex_signed_store ''p''))
   \<and> calculate_burndown ex_signed_store 739000 ''p'' 0 = Inr []"
  by (simp add: calculate_burndown_def ex_signed_tasks mk_task_def)

text \<open>
  C10, amended: for every project whose story points do not sum to zero, and so for every
  project without negative story points and with a task of positive story points,
  \<^verbatim>\<open>calculate_burndown\<close> with \<^verbatim>\<open>sprint_days = 0\<close> raises \<^verbatim>\<open>ZeroDivisionError\<close>.
\<close>

theorem C10_zero_sprint_days:
  "(sum_list (map story_points (get_project_tasks s pid)) \<noteq> 0 \<longrightarrow>
      calculate_burndown s today pid 0 = Inl ZeroDivisionError)
   \<and> ((\<forall>t\<in>set (get_project_tasks s pid). 0 \<le> story_points t)
        \<and> (\<exists>t\<in>set (get_project_tasks s pid). 0 < story_points t) \<longrightarrow>
        calculate_burndown s today pid 0 = Inl ZeroDivisionError)"
proof (intro conjI impI)
  assume "sum_list (map story_points (get_project_tasks s pid)) \<noteq> 0"
  then show "calculate_burndown s today pid 0 = Inl ZeroDivisionError"
    by (rule calculate_burndown_zero_days)
next
  assume a: "(\<forall>t\<in>set (get_project_tasks s pid). 0 \<le> story_points t)
        \<and> (\<exists>t\<in>set (get_project_tasks s pid). 0 < story_points t)"
  have "0 < sum_list (map story_points ts)"
    if "\<forall>t\<in>set ts. 0 \<le> story_points t" "\<exists>t\<in>set ts. 0 < story_points t" for ts :: "task list"
    using that
  proof (induction ts)
    case Nil
    then show ?case by simp
  next
    case (Cons t ts)
    have "0 \<le> sum_list (map story_points ts)"
      using Cons.prems(1) by (intro sum_list_nonneg) auto
    with Cons show ?case by (cases "0 < story_points t") auto
  qed
  with a have "sum_list (map story_points (get_project_tasks s pid)) \<noteq> 0" by fastforce
  then show "calculate_burndown s today pid 0 = Inl ZeroDivisionError"
    by (rule calculate_burndown_zero_days)
qed

theorem C10_zero_sprint_days_witness:
  "map story_points (get_project_tasks ex_three_store ''p'') = [2, 2, 2]
   \<and> sum_list (map story_points (get_project_tasks ex_three_store ''p'')) \<noteq> 0
   \<and> calculate_burndown ex_three_store 739000 ''p'' 0 = Inl ZeroDivisionError"
proof -
  have w: "map story_points (get_project_tasks ex_three_store ''p'') = [2, 2, 2]"
    by (simp add: ex_three_tasks mk_task_def)
  with C10_zero_sprint_days [of ex_three_store "''p''" 739000] show ?thesis by simp
qed

section \<open>Unknown identifiers\<close>

lemma find_None_image: "find (\<lambda>x. f x = k) xs = None \<longleftrightarrow> k \<notin> f ` set xs"
  by (auto simp: find_None_iff)

lemma get_project_None: "get_project s pid = None \<longleftrightarrow> pid \<notin> p_id ` set (tbl_projects s)"
  by (simp add: get_project_def find_None_image)

lemma get_project_Some: "get_project s pid = Some p \<Longrightarrow> p \<in> set (tbl_projects s) \<and> p_id p = pid"
  unfolding get_project_def by (auto simp: find_Some_iff in_set_conv_nth)

lemma get_task_None: "get_task s tid = None \<longleftrightarrow> tid \<notin> t_id ` set (tbl_tasks s)"
  by (cases "find (\<lambda>r. t_id r = tid) (tbl_tasks s)")
    (simp_all add: get_task_def find_None_image [symmetric])

lemma get_task_Some:
  "get_task s tid = Some t \<Longrightarrow> task_row.truncate t \<in> set (tbl_tasks s) \<and> t_id t = tid"
  unfolding get_task_def
  by (auto simp: find_Some_iff in_set_conv_nth row_to_task_def task_row.defs task.defs
      split: option.splits)

lemma not_found_examples:
  "not_found ''q'' = ValueError (''Project '' @ [CHR 0x27] @ ''q'' @ [CHR 0x27] @ '' not found'')"
  "not_found [CHR ''a'', CHR 0x27, CHR ''b''] =
     ValueError (''Project '' @ [CHR 0x22, CHR ''a'', CHR 0x27, CHR ''b'', CHR 0x22] @ '' not found'')"
  "not_found [CHR 0x01] =
     ValueError (''Project '' @ [CHR 0x27, CHR 0x5C, CHR ''x'', CHR ''0'', CHR ''1'', CHR 0x27]
                   @ '' not found'')"
  by (simp_all add: not_found_def repr_def repr_char_def hex_digit_def Let_def)

lemma export_gantt_csv_missing:
  "get_project s pid = None \<Longrightarrow> export_gantt_csv s pid = Some (Inl (not_found pid))"
  by (simp add: export_gantt_csv_def)

lemma export_gantt_csv_present:
  assumes "get_project s pid = Some p"
  shows "\<exists>cp. get_critical_path s pid = Some (Inr cp)
           \<and> export_gantt_csv s pid =
               Some (Inr (gantt_header # map (gantt_row (t_id ` set cp)) (get_project_tasks s pid)))"
proof -
  from critical_path_returns [of "get_project_tasks s pid"] obtain cp where
    "get_critical_path s pid = Some (Inr cp)"
    unfolding get_critical_path_def by blast
  with assms show ?thesis by (simp add: export_gantt_csv_def)
qed

lemma ex_report_tasks:
  "get_project_tasks ex_report_store ''p'' =
     [(mk_task ''a'' 1 2 [])\<lparr>due_date := Some 739000\<rparr>,
      (mk_task ''b'' 2 3 [''a''])\<lparr>due_date := Some 738998\<rparr>,
      (mk_task ''c'' 3 1 [])\<lparr>due_date := Some 739001, t_status := ''blocked''\<rparr>,
      (mk_task ''d'' 4 1 [])\<lparr>due_date := Some 739020\<rparr>]"
  by (simp add: ex_report_store_def store_defs)

text \<open>
  C9: \<^verbatim>\<open>export_gantt_csv\<close> raises the not-found error exactly when \<^verbatim>\<open>get_project\<close> finds no
  project with the given id, that is when no stored project has that id; for a stored
  project it raises nothing and returns the header row and one row for each task. The
  accessors \<^verbatim>\<open>get_project\<close> and \<^verbatim>\<open>get_task\<close> raise nothing: for an id that no stored row
  has they return \<^verbatim>\<open>None\<close>, and for any other id a row with that id.
\<close>

theorem C9_not_found:
  "(export_gantt_csv s pid = Some (Inl (not_found pid)) \<longleftrightarrow> pid \<notin> p_id ` set (tbl_projects s))
   \<and> ((\<exists>e. export_gantt_csv s pid = Some (Inl e)) \<longleftrightarrow> pid \<notin> p_id ` set (tbl_projects s))
   \<and> (pid \<in> p_id ` set (tbl_projects s) \<longrightarrow>
        (\<exists>rows. export_gantt_csv s pid = Some (Inr rows)
           \<and> length rows = length (get_project_tasks s pid) + 1))
   \<and> (get_project s pid = None \<longleftrightarrow> pid \<notin> p_id ` set (tbl_projects s))
   \<and> (\<forall>p. get_project s pid = Some p \<longrightarrow> p \<in> set (tbl_projects s) \<and> p_id p = pid)
   \<and> (get_task s tid = None \<longleftrightarrow> tid \<notin> t_id ` set (tbl_tasks s))
   \<and> (\<forall>t. get_task s tid = Some t \<longrightarrow> task_row.truncate t \<in> set (tbl_tasks s) \<and> t_id t = tid)"
proof -
  have present: "\<exists>rows. export_gantt_csv s pid = Some (Inr rows)
           \<and> length rows = length (get_project_tasks s pid) + 1"
    if "pid \<in> p_id ` set (tbl_projects s)"
  proof -
    from that get_project_None [of s pid] obtain p where "get_project s pid = Some p" by auto
    from export_gantt_csv_present [OF this] show ?thesis by auto
  qed
  have missing: "export_gantt_csv s pid = Some (Inl (not_found pid))"
    if "pid \<notin> p_id ` set (tbl_projects s)"
    using that get_project_None [of s pid] by (simp add: export_gantt_csv_missing)
  have a: "export_gantt_csv s pid = Some (Inl (not_found pid)) \<longleftrightarrow> pid \<notin> p_id ` set (tbl_projects s)"
    using present missing by auto
  have b: "(\<exists>e. export_gantt_csv s pid = Some (Inl e)) \<longleftrightarrow> pid \<notin> p_id ` set (tbl_projects s)"
    using present missing by auto
  have c: "pid \<in> p_id ` set (tbl_projects s) \<longrightarrow>
        (\<exists>rows. export_gantt_csv s pid = Some (Inr rows)
           \<and> length rows = length (get_project_tasks s pid) + 1)"
    using present by (rule impI)
  have d: "\<forall>p. get_project s pid = Some p \<longrightarrow> p \<in> set (tbl_projects s) \<and> p_id p = pid"
    by (intro allI impI) (rule get_project_Some)
  have e: "\<forall>t. get_task s tid = Some t \<longrightarrow> task_row.truncate t \<in> set (tbl_tasks s) \<and> t_id t = tid"
    by (intro allI impI) (rule get_task_Some)
  from a b c get_project_None [of s pid] d get_task_None [of s tid] e show ?thesis
    by (intro conjI)
qed

theorem C9_not_found_witness:
  "''p'' \<in> p_id ` set (tbl_projects ex_report_store)
   \<and> (\<exists>rows. export_gantt_csv ex_report_store ''p'' = Some (Inr rows) \<and> length rows = 5)
   \<and> get_project ex_report_store ''p'' = Some ex_project
   \<and> ''q'' \<notin> p_id ` set (tbl_projects ex_report_store)
   \<and> export_gantt_csv ex_report_store ''q'' = Some (Inl (not_found ''q''))
   \<and> get_project ex_report_store ''q'' = None
   \<and> ''z'' \<notin> t_id ` set (tbl_tasks ex_report_store)
   \<and> get_task ex_report_store ''z'' = None
   \<and> get_task ex_report_store ''b'' = Some ((mk_task ''b'' 2 3 [''a''])\<lparr>due_date := Some 738998\<rparr>)"
proof -
  have p: "''p'' \<in> p_id ` set (tbl_projects ex_report_store)"
    and q: "''q'' \<notin> p_id ` set (tbl_projects ex_report_store)"
    and z: "''z'' \<notin> t_id ` set (tbl_tasks ex_report_store)"
    by (simp_all add: ex_report_store_def ex_project_def store_defs)
  have g: "get_project ex_report_store ''p'' = Some ex_project"
    "get_task ex_report_store ''b'' = Some ((mk_task ''b'' 2 3 [''a''])\<lparr>due_date := Some 738998\<rparr>)"
    by (simp_all add: ex_report_store_def ex_project_def store_defs get_project_def get_task_def)
  from p q z g C9_not_found [of ex_report_store "''p''" "''z''"]
    C9_not_found [of ex_report_store "''q''" "''z''"]
  show ?thesis by (simp add: ex_report_tasks eval_nat_numeral)
qed

section \<open>Deadline alerts\<close>

lemma mset_task_alerts:
  "mset (concat (map (\<lambda>row. case due_date row of
                                  None \<Rightarrow> []
                                | Some due \<Rightarrow>
                                    if t_status row \<noteq> ''done'' \<and> t_status row \<noteq> ''blocked''
                                       \<and> due \<le> horizon
                                    then [task_alert today row due] else [])
                      rows)) =
   image_mset (\<lambda>row. task_alert today row (the (due_date row)))
     (filter_mset (\<lambda>row. t_status row \<noteq> ''done'' \<and> t_status row \<noteq> ''blocked''
                      \<and> (\<exists>due. due_date row = Some due \<and> due \<le> horizon))
        (mset rows))"
  by (induction rows) (auto split: option.splits)

lemma mset_list_projects:
  "st \<noteq> [] \<Longrightarrow>
     mset (list_projects s (Some st)) = filter_mset (\<lambda>p. p_status p = st) (mset (tbl_projects s))"
  by (simp add: list_projects_def)

lemma date_add_is_date:
  "is_date d \<Longrightarrow> is_date (d + n) \<Longrightarrow> date_add d n = Inr (d + n)"
  unfolding date_add_def is_date_def max_ordinal_def by (simp add: abs_if)

lemma date_add_overflow:
  "is_date d \<Longrightarrow> \<not> is_date (d + n) \<Longrightarrow> date_add d n = Inl OverflowError"
  by (auto simp: date_add_def is_date_def max_ordinal_def)

lemma check_deadlines_overflow:
  "is_date today \<Longrightarrow> \<not> is_date (today + days_ahead) \<Longrightarrow>
     check_deadlines s today days_ahead = Inl OverflowError"
  by (simp add: check_deadlines_def date_add_overflow)

lemma check_deadlines_result:
  assumes "is_date today" and "is_date (today + days_ahead)"
  shows "\<exists>alerts. check_deadlines s today days_ahead = Inr alerts
     \<and> mset alerts =
         image_mset (project_alert today)
           (filter_mset (\<lambda>p. p_status p = ''active'' \<and> deadline p - today \<le> days_ahead)
              (mset (tbl_projects s)))
         + image_mset (\<lambda>row. task_alert today row (the (due_date row)))
             (filter_mset (\<lambda>row. t_status row \<noteq> ''done'' \<and> t_status row \<noteq> ''blocked''
                              \<and> (\<exists>due. due_date row = Some due \<and> due \<le> today + days_ahead))
                (mset (tbl_tasks s)))
     \<and> sorted (map days_remaining alerts)"
proof -
  have p: "mset (filter (\<lambda>p. deadline p - today \<le> days_ahead) (list_projects s (Some ''active''))) =
      filter_mset (\<lambda>p. p_status p = ''active'' \<and> deadline p - today \<le> days_ahead)
        (mset (tbl_projects s))"
    by (simp add: mset_list_projects filter_filter_mset conj_commute)
  from date_add_is_date [OF assms] show ?thesis
    by (simp add: check_deadlines_def Let_def mset_task_alerts p del: mset_filter)
qed

lemma urgency_project_alert:
  "days_remaining (project_alert today p) = deadline p - today"
  "urgency (project_alert today p) = urgency_of (deadline p - today)"
  by (simp_all add: project_alert_def)

lemma urgency_task_alert:
  "days_remaining (task_alert today row due) = due - today"
  "urgency (task_alert today row due) = urgency_of (due - today)"
  by (simp_all add: task_alert_def)

lemma urgency_check_deadlines:
  assumes "check_deadlines s today days_ahead = Inr alerts" and "a \<in> set alerts"
  shows "urgency a = urgency_of (days_remaining a)"
proof -
  from assms(1) obtain horizon where
    "alerts = sort_key days_remaining
       (map (project_alert today)
          (filter (\<lambda>p. deadline p - today \<le> days_ahead) (list_projects s (Some ''active'')))
        @ concat (map (\<lambda>row. case due_date row of
                                  None \<Rightarrow> []
                                | Some due \<Rightarrow>
                                    if t_status row \<noteq> ''done'' \<and> t_status row \<noteq> ''blocked''
                                       \<and> due \<le> horizon
                                    then [task_alert today row due] else [])
                      (tbl_tasks s)))"
    by (auto simp: check_deadlines_def Let_def split: sum.splits)
  with assms(2) show ?thesis
    by (auto simp: urgency_project_alert urgency_task_alert split: option.splits if_splits)
qed

text \<open>
  C8, as stated, fails for a horizon beyond the last date: \<^verbatim>\<open>today + timedelta(days=3000000)\<close>
  is past the year 9999 and the call raises \<^verbatim>\<open>OverflowError\<close> instead of returning alerts.
\<close>

theorem C8_horizon_counterexample:
  "is_date 739000 \<and> check_deadlines ex_report_store 739000 3000000 = Inl OverflowError"
  by (simp add: check_deadlines_def date_add_def is_date_def max_ordinal_def)

text \<open>
  C8, amended: when the horizon \<^verbatim>\<open>today + days_ahead\<close> is a date, \<^verbatim>\<open>check_deadlines\<close> returns
  one project alert for each project with status active whose deadline minus today is at
  most \<^verbatim>\<open>days_ahead\<close> (overdue ones included), one task alert for each task that is neither
  done nor blocked and has a due date at or before the horizon, and nothing else; the days
  remaining of an alert are the deadline or due date minus today, its urgency is overdue
  when they are negative, today when zero and upcoming when positive; and the list is
  sorted ascending by days remaining. When the horizon is not a date the call raises
  \<^verbatim>\<open>OverflowError\<close>.
\<close>

theorem C8_check_deadlines:
  "(is_date today \<and> is_date (today + days_ahead) \<longrightarrow>
      (\<exists>alerts. check_deadlines s today days_ahead = Inr alerts
         \<and> mset alerts =
             image_mset (project_alert today)
               (filter_mset (\<lambda>p. p_status p = ''active'' \<and> deadline p - today \<le> days_ahead)
                  (mset (tbl_projects s)))
             + image_mset (\<lambda>row. task_alert today row (the (due_date row)))
                 (filter_mset (\<lambda>row. t_status row \<noteq> ''done'' \<and> t_status row \<noteq> ''blocked''
                                  \<and> (\<exists>due. due_date row = Some due \<and> due \<le> today + days_ahead))
                    (mset (tbl_tasks s)))
         \<and> (\<forall>a\<in>set alerts.
               urgency a = (if days_remaining a < 0 then ''overdue''
                            else if days_remaining a = 0 then ''today'' else ''upcoming''))
         \<and> sorted (map days_remaining alerts)))
   \<and> (is_date today \<and> \<not> is_date (today + days_ahead) \<longrightarrow>
        check_deadlines s today days_ahead = Inl OverflowError)
   \<and> project_alert today p =
        ProjectAlert (p_id p) (name p) (owner p) (deadline p) (deadline p - today)
          (if deadline p - today < 0 then ''overdue''
           else if deadline p - today = 0 then ''today'' else ''upcoming'')
   \<and> task_alert today row due =
        TaskAlert (t_id row) (title row) (assignee row) due (due - today)
          (if due - today < 0 then ''overdue''
           else if due - today = 0 then ''today'' else ''upcoming'')"
proof (intro conjI impI)
  assume a: "is_date today \<and> is_date (today + days_ahead)"
  from check_deadlines_result [OF conjunct1 [OF a] conjunct2 [OF a], of s] obtain alerts where
    r: "check_deadlines s today days_ahead = Inr alerts"
      "mset alerts =
         image_mset (project_alert today)
           (filter_mset (\<lambda>p. p_status p = ''active'' \<and> deadline p - today \<le> days_ahead)
              (mset (tbl_projects s)))
         + image_mset (\<lambda>row. task_alert today row (the (due_date row)))
             (filter_mset (\<lambda>row. t_status row \<noteq> ''done'' \<and> t_status row \<noteq> ''blocked''
                              \<and> (\<exists>due. due_date row = Some due \<and> due \<le> today + days_ahead))
                (mset (tbl_tasks s)))"
      "sorted (map days_remaining alerts)"
    by blast
  have u: "\<forall>a\<in>set alerts.
               urgency a = (if days_remaining a < 0 then ''overdue''
                            else if days_remaining a = 0 then ''today'' else ''upcoming'')"
  proof
    fix a assume "a \<in> set alerts"
    from urgency_check_deadlines [OF r(1) this] show
      "urgency a = (if days_remaining a < 0 then ''overdue''
                            else if days_remaining a = 0 then ''today'' else ''upcoming'')"
      by (simp add: urgency_of_def)
  qed
  from r u show "\<exists>alerts. check_deadlines s today days_ahead = Inr alerts
         \<and> mset alerts =
             image_mset (project_alert today)
               (filter_mset (\<lambda>p. p_status p = ''active'' \<and> deadline p - today \<le> days_ahead)
                  (mset (tbl_projects s)))
             + image_mset (\<lambda>row. task_alert today row (the (due_date row)))
                 (filter_mset (\<lambda>row. t_status row \<noteq> ''done'' \<and> t_status row \<noteq> ''blocked''
                                  \<and> (\<exists>due. due_date row = Some due \<and> due \<le> today + days_ahead))
                    (mset (tbl_tasks s)))
         \<and> (\<forall>a\<in>set alerts.
               urgency a = (if days_remaining a < 0 then ''overdue''
                            else if days_remaining a = 0 then ''today'' else ''upcoming''))
         \<and> sorted (map days_remaining alerts)"
    by (intro exI [of _ alerts] conjI)
next
  assume "is_date today \<and> \<not> is_date (today + days_ahead)"
  then show "check_deadlines s today days_ahead = Inl OverflowError"
    by (simp add: check_deadlines_overflow)
next
  show "project_alert today p =
        ProjectAlert (p_id p) (name p) (owner p) (deadline p) (deadline p - today)
          (if deadline p - today < 0 then ''overdue''
           else if deadline p - today = 0 then ''today'' else ''upcoming'')"
    by (simp add: project_alert_def urgency_of_def)
next
  show "task_alert today row due =
        TaskAlert (t_id row) (title row) (assignee row) due (due - today)
          (if due - today < 0 then ''overdue''
           else if due - today = 0 then ''today'' else ''upcoming'')"
    by (simp add: task_alert_def urgency_of_def)
qed

lemma ex_report_alerts:
  "check_deadlines ex_report_store 739000 7 =
     Inr [TaskAlert ''b'' ''T'' ''a'' 738998 (- 2) ''overdue'',
          TaskAlert ''a'' ''T'' ''a'' 739000 0 ''today'',
          ProjectAlert ''p'' ''Launch'' ''ann'' 739003 3 ''upcoming'']"
  by (simp add: check_deadlines_def date_add_def max_ordinal_def list_projects_def
        ex_report_store_def ex_project_def store_defs project_alert_def task_alert_def
        urgency_of_def)

theorem C8_check_deadlines_witness:
  "is_date 739000 \<and> is_date (739000 + 7)
   \<and> check_deadlines ex_report_store 739000 7 =
       Inr [TaskAlert ''b'' ''T'' ''a'' 738998 (- 2) ''overdue'',
            TaskAlert ''a'' ''T'' ''a'' 739000 0 ''today'',
            ProjectAlert ''p'' ''Launch'' ''ann'' 739003 3 ''upcoming'']
   \<and> sorted (map days_remaining
        [TaskAlert ''b'' ''T'' ''a'' 738998 (- 2) ''overdue'',
         TaskAlert ''a'' ''T'' ''a'' 739000 0 ''today'',
         ProjectAlert ''p'' ''Launch'' ''ann'' 739003 3 ''upcoming''])
   \<and> \<not> is_date (739000 + 3000000)
   \<and> check_deadlines ex_report_store 739000 3000000 = Inl OverflowError"
proof -
  have d: "is_date 739000" "is_date (739000 + 7)" "\<not> is_date (739000 + 3000000)"
    by (simp_all add: is_date_def max_ordinal_def)
  note A = C8_check_deadlines [of 739000 7 ex_report_store]
  note B = C8_check_deadlines [of 739000 3000000 ex_report_store]
  from A [THEN conjunct1] d(1,2) obtain alerts where
    r: "check_deadlines ex_report_store 739000 7 = Inr alerts" "sorted (map days_remaining alerts)"
    by blast
  from r(1) have "alerts = [TaskAlert ''b'' ''T'' ''a'' 738998 (- 2) ''overdue'',
         TaskAlert ''a'' ''T'' ''a'' 739000 0 ''today'',
         ProjectAlert ''p'' ''Launch'' ''ann'' 739003 3 ''upcoming'']"
    by (simp add: ex_report_alerts)
  with r(2) have 1: "sorted (map days_remaining
        [TaskAlert ''b'' ''T'' ''a'' 738998 (- 2) ''overdue'',
         TaskAlert ''a'' ''T'' ''a'' 739000 0 ''today'',
         ProjectAlert ''p'' ''Launch'' ''ann'' 739003 3 ''upcoming''])"
    by simp
  from B [THEN conjunct2, THEN conjunct1] d(1,3)
  have 2: "check_deadlines ex_report_store 739000 3000000 = Inl OverflowError" by blast
  from d(1,2) ex_report_alerts 1 d(3) 2 show ?thesis by (intro conjI)
qed

end
